theory Spec2Isabelle
  imports Main "HOL-Library.Char_ord" "HOL-Library.List_Lexorder" "HOL-Library.Product_Lexorder"
begin

section \<open>The content store (src/lib/firebase/admin.ts)\<close>

text \<open>
  The server side of the publishing platform keeps its posts in a Firestore collection
  \<^verbatim>\<open>posts\<close>; every post document owns a subcollection \<^verbatim>\<open>versions\<close>.
  A document is modelled as a record with the fields the code reads and writes,
  a Firestore timestamp as a natural number, and \<^verbatim>\<open>FieldValue.serverTimestamp()\<close>
  as a parameter \<open>now\<close> of the operation that uses it. Document ids that the
  store assigns (\<^verbatim>\<open>add\<close>) and the random preview token are parameters too.
  Every operation of the source catches store exceptions and turns them into a
  failure result; the store of the model never throws, so these branches do not
  appear, and the failure results that remain are the ones the code returns on purpose.
\<close>

datatype status = Draft | Published

record preview =
  pv_token :: "string option"
  pv_enabled :: bool
  pv_createdAt :: nat

record post =
  p_id :: string
  title :: string
  slug :: string
  oldSlugs :: "string list"
  excerpt :: string
  content :: string
  status :: status
  publishedAt :: "nat option"
  createdAt :: nat
  updatedAt :: nat
  preview :: "preview option"

record version =
  v_id :: string
  v_title :: string
  v_slug :: string
  v_excerpt :: string
  v_content :: string
  v_status :: status
  v_createdAt :: nat
  v_note :: "string option"

record store =
  posts :: "post list"
  versions :: "string \<Rightarrow> version list"

datatype error = PostNotFound | SlugExists | VersionNotFound

subsection \<open>normalizeSlug\<close>

text \<open>
  \<^verbatim>\<open>slug.toLowerCase().trim().replace(/[^a-z0-9]+/g, '-').replace(/^-|-$/g, '')\<close>
  on strings of 8-bit characters: \<open>toLowerCase\<close> maps A..Z to a..z, \<open>trim\<close> strips
  white space at both ends, every maximal run of characters outside a..z, 0..9 becomes
  one hyphen (the flag of \<open>replaceRuns\<close> says that the scan is inside such a run,
  whose hyphen is already written), and one leading and one trailing hyphen are removed.
  The few characters outside ASCII that JavaScript lowers to an ASCII letter are not
  modelled: here every character beyond ASCII ends up in a hyphen.
\<close>

definition lowerChar :: "char \<Rightarrow> char" where
  "lowerChar c = (if CHR ''A'' \<le> c \<and> c \<le> CHR ''Z'' then char_of (of_char c + (32::nat)) else c)"

definition toLowerCase :: "string \<Rightarrow> string" where
  "toLowerCase s = map lowerChar s"

definition isSpace :: "char \<Rightarrow> bool" where
  "isSpace c = (c \<in> {CHR 0x09, CHR 0x0A, CHR 0x0B, CHR 0x0C, CHR 0x0D, CHR 0x20, CHR 0xA0})"

definition trim :: "string \<Rightarrow> string" where
  "trim s = rev (dropWhile isSpace (rev (dropWhile isSpace s)))"

definition isSlugChar :: "char \<Rightarrow> bool" where
  "isSlugChar c = ((CHR ''a'' \<le> c \<and> c \<le> CHR ''z'') \<or> (CHR ''0'' \<le> c \<and> c \<le> CHR ''9''))"

fun replaceRuns :: "bool \<Rightarrow> string \<Rightarrow> string" where
  "replaceRuns inRun [] = []"
| "replaceRuns inRun (c # cs) =
     (if isSlugChar c then c # replaceRuns False cs
      else if inRun then replaceRuns True cs
      else CHR ''-'' # replaceRuns True cs)"

definition hyphenate :: "string \<Rightarrow> string" where
  "hyphenate s = replaceRuns False s"

definition stripLeading :: "string \<Rightarrow> string" where
  "stripLeading s = (case s of [] \<Rightarrow> [] | c # cs \<Rightarrow> if c = CHR ''-'' then cs else s)"

definition stripTrailing :: "string \<Rightarrow> string" where
  "stripTrailing s = (if s \<noteq> [] \<and> last s = CHR ''-'' then butlast s else s)"

definition stripEnds :: "string \<Rightarrow> string" where
  "stripEnds s = stripTrailing (stripLeading s)"

definition normalizeSlug :: "string \<Rightarrow> string" where
  "normalizeSlug s = stripEnds (hyphenate (trim (toLowerCase s)))"

subsection \<open>Queries\<close>

text \<open>
  A query without \<^verbatim>\<open>orderBy\<close> returns the matching documents in the order of
  their ids, and \<^verbatim>\<open>limit(1)\<close> keeps the first of them.
\<close>

definition queryFirst :: "(post \<Rightarrow> bool) \<Rightarrow> store \<Rightarrow> post option" where
  "queryFirst P st = find P (sort_key p_id (posts st))"

definition getDoc :: "string \<Rightarrow> store \<Rightarrow> post option" where
  "getDoc i st = find (\<lambda>p. p_id p = i) (posts st)"

definition updateDoc :: "string \<Rightarrow> (post \<Rightarrow> post) \<Rightarrow> store \<Rightarrow> store" where
  "updateDoc i f st = st\<lparr>posts := map (\<lambda>p. if p_id p = i then f p else p) (posts st)\<rparr>"

definition getPostBySlug :: "string \<Rightarrow> store \<Rightarrow> post option" where
  "getPostBySlug s st =
     (let normalizedSlug = normalizeSlug s
      in queryFirst (\<lambda>p. slug p = normalizedSlug \<and> status p = Published) st)"

definition getPostByOldSlug :: "string \<Rightarrow> store \<Rightarrow> post option" where
  "getPostByOldSlug oldSlug st =
     (let normalizedSlug = normalizeSlug oldSlug
      in queryFirst (\<lambda>p. normalizedSlug \<in> set (oldSlugs p) \<and> status p = Published) st)"

definition getPostById :: "string \<Rightarrow> store \<Rightarrow> post option" where
  "getPostById i st = getDoc i st"

definition isSlugAvailable :: "string \<Rightarrow> string option \<Rightarrow> store \<Rightarrow> bool" where
  "isSlugAvailable s excludePostId st =
     (let normalizedSlug = normalizeSlug s
      in case queryFirst (\<lambda>p. slug p = normalizedSlug) st of
           None \<Rightarrow> True
         | Some d \<Rightarrow>
             (case excludePostId of
                None \<Rightarrow> False
              | Some e \<Rightarrow> e \<noteq> [] \<and> p_id d = e))"

subsection \<open>Creating and updating posts\<close>

record postInput =
  i_title :: string
  i_slug :: string
  i_excerpt :: string
  i_content :: string
  i_status :: status

definition createPost :: "string \<Rightarrow> nat \<Rightarrow> postInput \<Rightarrow> store \<Rightarrow> error + (string \<times> store)" where
  "createPost newId now d st =
     (let normalizedSlug = normalizeSlug (i_slug d)
      in if \<not> isSlugAvailable normalizedSlug None st then Inl SlugExists
         else
           let postData = \<lparr>p_id = newId, title = i_title d, slug = normalizedSlug, oldSlugs = [],
                 excerpt = i_excerpt d, content = i_content d, status = i_status d,
                 publishedAt = (if i_status d = Published then Some now else None),
                 createdAt = now, updatedAt = now, preview = None\<rparr>
           in Inr (newId, st\<lparr>posts := posts st @ [postData]\<rparr>))"

record postUpdate =
  u_title :: "string option"
  u_slug :: "string option"
  u_excerpt :: "string option"
  u_content :: "string option"
  u_status :: "status option"

definition setIfDefined :: "'a option \<Rightarrow> 'a \<Rightarrow> 'a" where
  "setIfDefined new old = (case new of None \<Rightarrow> old | Some v \<Rightarrow> v)"

definition updatePost :: "nat \<Rightarrow> string \<Rightarrow> postUpdate \<Rightarrow> store \<Rightarrow> error + store" where
  "updatePost now i d st =
     (case getDoc i st of
        None \<Rightarrow> Inl PostNotFound
      | Some currentData \<Rightarrow>
          let currentSlug = slug currentData;
              currentOldSlugs = oldSlugs currentData;
              normalizedNewSlug =
                (case u_slug d of None \<Rightarrow> None
                 | Some s \<Rightarrow> if s = [] then None else Some (normalizeSlug s));
              isSlugChanging =
                (case normalizedNewSlug of None \<Rightarrow> False
                 | Some n \<Rightarrow> n \<noteq> [] \<and> n \<noteq> currentSlug)
          in if isSlugChanging \<and> \<not> isSlugAvailable (the normalizedNewSlug) (Some i) st
             then Inl SlugExists
             else
               let newPublishedAt =
                     (if u_status d = Some Published \<and> status currentData \<noteq> Published then Some now
                      else if u_status d = Some Draft then None
                      else publishedAt currentData)
               in Inr (updateDoc i
                    (\<lambda>p. p\<lparr>publishedAt := newPublishedAt,
                           updatedAt := now,
                           title := setIfDefined (u_title d) (title p),
                           excerpt := setIfDefined (u_excerpt d) (excerpt p),
                           content := setIfDefined (u_content d) (content p),
                           status := setIfDefined (u_status d) (status p),
                           slug := (if isSlugChanging then the normalizedNewSlug else slug p),
                           oldSlugs :=
                             (if isSlugChanging \<and> currentSlug \<noteq> [] \<and> currentSlug \<notin> set currentOldSlugs
                              then currentOldSlugs @ [currentSlug] else oldSlugs p)\<rparr>) st))"

definition togglePostStatus :: "nat \<Rightarrow> string \<Rightarrow> store \<Rightarrow> error + store" where
  "togglePostStatus now i st =
     (case getDoc i st of
        None \<Rightarrow> Inl PostNotFound
      | Some d \<Rightarrow>
          let newStatus = (if status d = Published then Draft else Published)
          in Inr (updateDoc i
               (\<lambda>p. p\<lparr>status := newStatus, updatedAt := now,
                      publishedAt :=
                        (if newStatus = Published \<and> publishedAt d = None then Some now
                         else publishedAt p)\<rparr>) st))"

definition publishPost :: "nat \<Rightarrow> string \<Rightarrow> store \<Rightarrow> error + store" where
  "publishPost now i st =
     (case getDoc i st of
        None \<Rightarrow> Inl PostNotFound
      | Some d \<Rightarrow>
          Inr (updateDoc i
            (\<lambda>p. p\<lparr>status := Published, updatedAt := now,
                   publishedAt := (if publishedAt d = None then Some now else publishedAt p)\<rparr>) st))"

definition unpublishPost :: "nat \<Rightarrow> string \<Rightarrow> store \<Rightarrow> error + store" where
  "unpublishPost now i st =
     (case getDoc i st of
        None \<Rightarrow> Inl PostNotFound
      | Some d \<Rightarrow> Inr (updateDoc i (\<lambda>p. p\<lparr>status := Draft, updatedAt := now\<rparr>) st))"

subsection \<open>Versions\<close>

definition MAX_VERSIONS :: nat where
  "MAX_VERSIONS = 20"

text \<open>
  \<^verbatim>\<open>orderBy('createdAt', 'desc')\<close>: newest first; Firestore breaks ties by document
  id, in the direction of the ordering.
\<close>

definition orderByCreatedAtDesc :: "version list \<Rightarrow> version list" where
  "orderByCreatedAtDesc vs = rev (sort_key (\<lambda>v. (v_createdAt v, v_id v)) vs)"

definition truthy :: "string option \<Rightarrow> string option" where
  "truthy x = (case x of None \<Rightarrow> None | Some s \<Rightarrow> if s = [] then None else Some s)"

definition versionSnapshot :: "string \<Rightarrow> nat \<Rightarrow> string option \<Rightarrow> post \<Rightarrow> version" where
  "versionSnapshot newId now note postData =
     \<lparr>v_id = newId, v_title = title postData, v_slug = slug postData,
      v_excerpt = excerpt postData, v_content = content postData,
      v_status = status postData, v_createdAt = now, v_note = truthy note\<rparr>"

definition createVersion ::
  "string \<Rightarrow> nat \<Rightarrow> string \<Rightarrow> string option \<Rightarrow> store \<Rightarrow> error + (string \<times> store)" where
  "createVersion newId now postId note st =
     (case getDoc postId st of
        None \<Rightarrow> Inl PostNotFound
      | Some postData \<Rightarrow>
          let added = versions st postId @ [versionSnapshot newId now note postData];
              allVersions = orderByCreatedAtDesc added;
              versionsToDelete =
                (if length allVersions > MAX_VERSIONS then drop MAX_VERSIONS allVersions else [])
          in Inr (newId,
               st\<lparr>versions := (versions st)
                 (postId := filter (\<lambda>v. v_id v \<notin> v_id ` set versionsToDelete) added)\<rparr>))"

text \<open>A sequence of calls for one post, each with its new id, its time and its note.\<close>

fun createVersions ::
  "(string \<times> nat \<times> string option) list \<Rightarrow> string \<Rightarrow> store \<Rightarrow> error + store" where
  "createVersions [] postId st = Inr st"
| "createVersions ((newId, now, note) # calls) postId st =
     (case createVersion newId now postId note st of
        Inl e \<Rightarrow> Inl e
      | Inr (_, st') \<Rightarrow> createVersions calls postId st')"

definition getVersions :: "string \<Rightarrow> store \<Rightarrow> version list" where
  "getVersions postId st = orderByCreatedAtDesc (versions st postId)"

text \<open>
  \<open>restoreVersion\<close> reads the post and the version, calls \<open>createVersion\<close> without
  looking at its result, and then writes the fields it read from the version.
\<close>

definition restoreVersion ::
  "string \<Rightarrow> nat \<Rightarrow> nat \<Rightarrow> string \<Rightarrow> string \<Rightarrow> store \<Rightarrow> error + store" where
  "restoreVersion newId now now' postId versionId st =
     (case getDoc postId st of
        None \<Rightarrow> Inl PostNotFound
      | Some postDoc \<Rightarrow>
          (case find (\<lambda>v. v_id v = versionId) (versions st postId) of
             None \<Rightarrow> Inl VersionNotFound
           | Some versionData \<Rightarrow>
               let st1 = (case createVersion newId now postId (Some ''Before restore'') st of
                            Inl e \<Rightarrow> st
                          | Inr (_, s) \<Rightarrow> s)
               in Inr (updateDoc postId
                    (\<lambda>p. p\<lparr>title := v_title versionData, slug := v_slug versionData,
                           excerpt := v_excerpt versionData, content := v_content versionData,
                           status := v_status versionData, updatedAt := now'\<rparr>) st1)))"

subsection \<open>Preview links\<close>

definition generatePreviewToken ::
  "string \<Rightarrow> nat \<Rightarrow> string \<Rightarrow> store \<Rightarrow> error + (string \<times> store)" where
  "generatePreviewToken token now postId st =
     (case getDoc postId st of
        None \<Rightarrow> Inl PostNotFound
      | Some d \<Rightarrow>
          Inr (token, updateDoc postId
            (\<lambda>p. p\<lparr>preview := Some \<lparr>pv_token = Some token, pv_enabled = True, pv_createdAt = now\<rparr>\<rparr>) st))"

definition revokePreviewToken :: "nat \<Rightarrow> string \<Rightarrow> store \<Rightarrow> error + store" where
  "revokePreviewToken now postId st =
     (case getDoc postId st of
        None \<Rightarrow> Inl PostNotFound
      | Some d \<Rightarrow>
          Inr (updateDoc postId
            (\<lambda>p. p\<lparr>preview := Some \<lparr>pv_token = None, pv_enabled = False, pv_createdAt = now\<rparr>\<rparr>) st))"

definition previewMatches :: "string \<Rightarrow> post \<Rightarrow> bool" where
  "previewMatches token p =
     (case preview p of None \<Rightarrow> False
      | Some pv \<Rightarrow> pv_token pv = Some token \<and> pv_enabled pv = True)"

definition getPostByPreviewToken :: "string \<Rightarrow> store \<Rightarrow> (post \<times> string) option" where
  "getPostByPreviewToken token st =
     (case queryFirst (previewMatches token) st of
        None \<Rightarrow> None
      | Some d \<Rightarrow> Some (d, token))"

subsection \<open>Resolving a requested slug (src/app/posts/[slug]/page.tsx)\<close>

record resolution =
  r_post :: "post option"
  shouldRedirect :: bool
  redirectSlug :: "string option"

definition resolvePost :: "string \<Rightarrow> store \<Rightarrow> resolution" where
  "resolvePost s st =
     (case getPostBySlug s st of
        Some p \<Rightarrow> \<lparr>r_post = Some p, shouldRedirect = False, redirectSlug = None\<rparr>
      | None \<Rightarrow>
          (case getPostByOldSlug s st of
             Some postByOldSlug \<Rightarrow>
               \<lparr>r_post = Some postByOldSlug, shouldRedirect = True,
                redirectSlug = Some (slug postByOldSlug)\<rparr>
           | None \<Rightarrow> \<lparr>r_post = None, shouldRedirect = False, redirectSlug = None\<rparr>))"

section \<open>The save coordinator of the editor (PostEditor component)\<close>

text \<open>
  The editor is a React function component. Its form fields (\<^verbatim>\<open>title\<close>,
  \<^verbatim>\<open>slug\<close>, \<^verbatim>\<open>excerpt\<close>, \<^verbatim>\<open>content\<close>, \<^verbatim>\<open>status\<close>) and \<^verbatim>\<open>saveState\<close>
  are component state; \<^verbatim>\<open>lastSavedDataRef\<close>, \<^verbatim>\<open>currentPostIdRef\<close>,
  \<^verbatim>\<open>isSavingRef\<close>, \<^verbatim>\<open>pendingSaveRef\<close> and \<^verbatim>\<open>saveIdRef\<close> are refs, shared by
  all renders. Everything runs on one thread, so the model is a state record and one
  function per callback; an \<^verbatim>\<open>await\<close> ends a function, and what runs after it is
  another function.

  The component body runs again at every render, and \<^verbatim>\<open>getCurrentData\<close>,
  \<^verbatim>\<open>isDirty\<close>, \<^verbatim>\<open>performSave\<close>, \<^verbatim>\<open>requestSave\<close> and \<^verbatim>\<open>handleChange\<close> are
  created anew (\<^verbatim>\<open>useCallback\<close> with the fields among the dependencies) whenever a
  field has changed. Each of them reads the field values of the render that created it,
  while it reads the refs as they are when it runs. So every callback of the model
  takes the field values \<open>r\<close> of its render as a parameter: for a callback that the
  page invokes after the latest render these are the current fields, and for code that
  runs later inside a call of \<^verbatim>\<open>performSave\<close> they are the fields of the render
  that made this call.

  What the component does to the outside is recorded in the state: the requests it
  sends with \<^verbatim>\<open>fetch\<close>, and the calls of \<^verbatim>\<open>onSaveSuccess\<close> and \<^verbatim>\<open>onAuthError\<close>.
\<close>

record postData =
  d_title :: string
  d_slug :: string
  d_excerpt :: string
  d_content :: string
  d_status :: status

datatype saveState = Idle | Unsaved | Saving | Saved nat | Error string

record request =
  rq_postId :: "string option"
  rq_token :: string
  rq_body :: postData
  rq_createVersion :: bool
  rq_versionNote :: "string option"

record editor =
  form :: postData
  saveState :: saveState
  lastSavedData :: postData
  currentPostId :: "string option"
  isSaving :: bool
  pendingSave :: bool
  saveId :: nat
  autosaveTimer :: bool
  followUpTimers :: "postData list"
  fetched :: "request list"
  saveSuccesses :: "string list"
  authErrors :: nat

text \<open>
  \<open>autosaveTimer\<close> says that the debounce timer is armed; \<open>followUpTimers\<close> holds
  the \<^verbatim>\<open>setTimeout(..., 100)\<close> callbacks that have not run yet, each with the fields
  of its render. An \<open>inflight\<close> value holds the local variables of a call of
  \<^verbatim>\<open>performSave\<close> that waits for its response.
\<close>

record inflight =
  thisSaveId :: nat
  data :: postData
  savedPostId :: "string option"
  posted :: bool

record jsonBody =
  j_id :: "string option"
  j_error :: "string option"

datatype outcome = Response nat "jsonBody option" | FetchFailed

definition ok :: "nat \<Rightarrow> bool" where
  "ok code = (200 \<le> code \<and> code \<le> 299)"

definition isPostDataEqual :: "postData \<Rightarrow> postData \<Rightarrow> bool" where
  "isPostDataEqual a b =
     (d_title a = d_title b \<and> d_slug a = d_slug b \<and> d_excerpt a = d_excerpt b \<and>
      d_content a = d_content b \<and> d_status a = d_status b)"

definition getCurrentData :: "postData \<Rightarrow> postData" where
  "getCurrentData r = r"

definition isDirty :: "postData \<Rightarrow> editor \<Rightarrow> bool" where
  "isDirty r s = (\<not> isPostDataEqual (getCurrentData r) (lastSavedData s))"

subsection \<open>performSave\<close>

text \<open>
  The first part runs from the answer of \<^verbatim>\<open>getToken\<close> (the parameter \<open>token\<close>)
  to the call of \<^verbatim>\<open>fetch\<close>; the model takes \<^verbatim>\<open>getToken\<close> to answer before any
  other event is handled. The second part, \<open>performSave_completion\<close>, runs when the
  response has arrived or \<^verbatim>\<open>fetch\<close> has thrown: the rest of the \<^verbatim>\<open>try\<close> block,
  the \<^verbatim>\<open>catch\<close> block and the \<^verbatim>\<open>finally\<close> block. A body that \<^verbatim>\<open>response.json()\<close>
  cannot parse is \<open>None\<close>; reading the body is taken to be immediate, so the
  second part is one step.
\<close>

definition performSave ::
  "string option \<Rightarrow> postData \<Rightarrow> bool \<Rightarrow> string option \<Rightarrow> editor \<Rightarrow> editor \<times> inflight option" where
  "performSave token r createVersion' versionNote s =
     (case truthy token of
        None \<Rightarrow>
          (s\<lparr>saveState := Error ''Not authenticated'', authErrors := authErrors s + 1\<rparr>, None)
      | Some tok \<Rightarrow>
          let d = getCurrentData r;
              n = saveId s + 1;
              req = (case truthy (currentPostId s) of
                       Some i \<Rightarrow> \<lparr>rq_postId = Some i, rq_token = tok, rq_body = d,
                                  rq_createVersion = createVersion',
                                  rq_versionNote = (if createVersion' then versionNote else None)\<rparr>
                     | None \<Rightarrow> \<lparr>rq_postId = None, rq_token = tok, rq_body = d,
                                rq_createVersion = False, rq_versionNote = None\<rparr>)
          in (s\<lparr>saveId := n, isSaving := True, saveState := Saving, fetched := fetched s @ [req]\<rparr>,
              Some \<lparr>thisSaveId = n, data = d, savedPostId = currentPostId s,
                    posted = (truthy (currentPostId s) = None)\<rparr>))"

definition catchBlock :: "inflight \<Rightarrow> editor \<Rightarrow> editor" where
  "catchBlock h s =
     (if thisSaveId h \<noteq> saveId s then s
      else s\<lparr>saveState := Error ''Network error. Check your connection.''\<rparr>)"

definition afterResponse :: "nat \<Rightarrow> inflight \<Rightarrow> nat \<Rightarrow> jsonBody option \<Rightarrow> editor \<Rightarrow> editor" where
  "afterResponse now h code body s =
     (let newId = (case body of None \<Rightarrow> None | Some b \<Rightarrow> j_id b);
          created = (posted h \<and> ok code);
          savedId = (if created then newId else savedPostId h);
          s1 = (if created then s\<lparr>currentPostId := newId\<rparr> else s)
      in if thisSaveId h \<noteq> saveId s1 then s1
         else if code = 401 \<or> code = 403
           then s1\<lparr>saveState := Error ''Authentication expired'', authErrors := authErrors s1 + 1\<rparr>
         else if \<not> ok code
           then s1\<lparr>saveState := Error
                  (case truthy (case body of None \<Rightarrow> None | Some b \<Rightarrow> j_error b) of
                     None \<Rightarrow> ''Failed to save'' | Some m \<Rightarrow> m)\<rparr>
         else s1\<lparr>lastSavedData := data h, saveState := Saved now,
                 saveSuccesses := (case truthy savedId of
                                     None \<Rightarrow> saveSuccesses s1
                                   | Some i \<Rightarrow> saveSuccesses s1 @ [i])\<rparr>)"

definition tryBlock :: "nat \<Rightarrow> inflight \<Rightarrow> outcome \<Rightarrow> editor \<Rightarrow> editor" where
  "tryBlock now h out s =
     (case out of
        FetchFailed \<Rightarrow> catchBlock h s
      | Response code body \<Rightarrow>
          if posted h \<and> ok code \<and> body = None then catchBlock h s
          else afterResponse now h code body s)"

definition finallyBlock :: "inflight \<Rightarrow> editor \<Rightarrow> editor" where
  "finallyBlock h s =
     (let s1 = s\<lparr>isSaving := False\<rparr>
      in if pendingSave s1
         then s1\<lparr>pendingSave := False, followUpTimers := followUpTimers s1 @ [data h]\<rparr>
         else s1)"

definition performSave_completion :: "nat \<Rightarrow> inflight \<Rightarrow> outcome \<Rightarrow> editor \<Rightarrow> editor" where
  "performSave_completion now h out s = finallyBlock h (tryBlock now h out s)"

text \<open>
  The callback of \<^verbatim>\<open>setTimeout\<close> in the \<^verbatim>\<open>finally\<close> block: \<^verbatim>\<open>isDirty\<close> and
  \<^verbatim>\<open>performSave\<close> are the ones of the render whose \<^verbatim>\<open>performSave\<close> set the timer.
\<close>

definition followUpTimer :: "string option \<Rightarrow> editor \<Rightarrow> editor \<times> inflight option" where
  "followUpTimer token s =
     (case followUpTimers s of
        [] \<Rightarrow> (s, None)
      | r # rest \<Rightarrow>
          let s1 = s\<lparr>followUpTimers := rest\<rparr>
          in if isDirty r s1 then performSave token r False None s1 else (s1, None))"

subsection \<open>requestSave, autosave and the handlers\<close>

definition requestSave ::
  "string option \<Rightarrow> postData \<Rightarrow> bool \<Rightarrow> string option \<Rightarrow> editor \<Rightarrow> editor \<times> inflight option" where
  "requestSave token r createVersion' versionNote s =
     (if \<not> isDirty r s then (s, None)
      else if isSaving s then (s\<lparr>pendingSave := True\<rparr>, None)
      else performSave token r createVersion' versionNote s)"

definition autoSave :: "string option \<Rightarrow> postData \<Rightarrow> editor \<Rightarrow> editor \<times> inflight option" where
  "autoSave token r s = requestSave token r False None s"

text \<open>
  Modelled from the spec: the hook \<^verbatim>\<open>useDebouncedCallbackWithCancel\<close> is imported
  from \<^verbatim>\<open>@/hooks/useDebouncedCallback\<close>, which is not among the sources. It is a
  trailing-edge debounce with one timer: a call of \<open>debouncedSave\<close> (re)starts the
  timer, \<open>cancelDebouncedSave\<close> clears it at once, and when the delay has passed
  since the last call the timer runs \<open>autoSave\<close> once. The model keeps whether
  the timer is armed, not its deadline.
\<close>

definition debouncedSave :: "editor \<Rightarrow> editor" where
  "debouncedSave s = s\<lparr>autosaveTimer := True\<rparr>"

definition cancelDebouncedSave :: "editor \<Rightarrow> editor" where
  "cancelDebouncedSave s = s\<lparr>autosaveTimer := False\<rparr>"

definition autosaveTimerFires :: "string option \<Rightarrow> postData \<Rightarrow> editor \<Rightarrow> editor \<times> inflight option" where
  "autosaveTimerFires token r s =
     (if autosaveTimer s then autoSave token r (s\<lparr>autosaveTimer := False\<rparr>) else (s, None))"

definition handleChange :: "postData \<Rightarrow> editor \<Rightarrow> editor" where
  "handleChange r s = (if isDirty r s then debouncedSave (s\<lparr>saveState := Unsaved\<rparr>) else s)"

text \<open>
  \<^verbatim>\<open>useEffect(() => { handleChange() }, [title, slug, excerpt, content, status, handleChange])\<close>:
  after a render in which a field differs from the render before, React runs
  \<open>handleChange\<close> of the new render. \<open>prev\<close> are the fields of the render before.
\<close>

definition fieldsEffect :: "postData \<Rightarrow> editor \<Rightarrow> editor" where
  "fieldsEffect prev s = (if form s \<noteq> prev then handleChange (form s) s else s)"

definition setFields :: "postData \<Rightarrow> editor \<Rightarrow> editor" where
  "setFields new s = fieldsEffect (form s) (s\<lparr>form := new\<rparr>)"

definition handleManualSave :: "string option \<Rightarrow> postData \<Rightarrow> editor \<Rightarrow> editor \<times> inflight option" where
  "handleManualSave token r s =
     (let s1 = cancelDebouncedSave s;
          shouldCreateVersion = (truthy (currentPostId s1) \<noteq> None)
      in requestSave token r shouldCreateVersion (Some ''Manual save'') s1)"

text \<open>
  \<open>handleVersionRestore\<close> is the handler itself: the state after its calls of the
  setters. \<open>restoreInEditor\<close> is what a restore does in the running editor: the
  handler, then the render with the new fields and its effect.
\<close>

definition handleVersionRestore :: "postData \<Rightarrow> editor \<Rightarrow> editor" where
  "handleVersionRestore v s =
     (let s1 = cancelDebouncedSave s
      in s1\<lparr>form := \<lparr>d_title = d_title v, d_slug = d_slug v, d_excerpt = d_excerpt v,
                         d_content = d_content v, d_status = d_status v\<rparr>,
             saveState := Unsaved\<rparr>)"

definition restoreInEditor :: "postData \<Rightarrow> editor \<Rightarrow> editor" where
  "restoreInEditor v s = fieldsEffect (form s) (handleVersionRestore v s)"

section \<open>Auxiliary notions\<close>

text \<open>
  The shape of a normalized slug: only a..z, 0..9 and single hyphens, with no hyphen
  at either end. The flag of \<open>shaped\<close> says that a hyphen may not come next.
\<close>

fun shaped :: "bool \<Rightarrow> string \<Rightarrow> bool" where
  "shaped b [] = True"
| "shaped b (c # cs) =
     (if isSlugChar c then shaped False cs else c = CHR ''-'' \<and> \<not> b \<and> shaped True cs)"

definition slugShaped :: "string \<Rightarrow> bool" where
  "slugShaped t = (shaped True t \<and> (t = [] \<or> last t \<noteq> CHR ''-''))"

text \<open>
  The clean-up at the end of \<open>createVersion\<close>, as a function of the log with the
  new version added.
\<close>

definition evictOld :: "version list \<Rightarrow> version list" where
  "evictOld added =
     (let allVersions = orderByCreatedAtDesc added;
          versionsToDelete =
            (if length allVersions > MAX_VERSIONS then drop MAX_VERSIONS allVersions else [])
      in filter (\<lambda>v. v_id v \<notin> v_id ` set versionsToDelete) added)"

text \<open>Reading a post out of the result of an operation.\<close>

definition docAfter :: "string \<Rightarrow> error + store \<Rightarrow> post option" where
  "docAfter i r = (case r of Inl e \<Rightarrow> None | Inr st \<Rightarrow> getDoc i st)"

definition andThen :: "error + store \<Rightarrow> (store \<Rightarrow> error + store) \<Rightarrow> error + store" where
  "andThen r f = (case r of Inl e \<Rightarrow> Inl e | Inr st \<Rightarrow> f st)"

definition onlyStatus :: "status \<Rightarrow> postUpdate" where
  "onlyStatus s = \<lparr>u_title = None, u_slug = None, u_excerpt = None, u_content = None,
     u_status = Some s\<rparr>"

definition onlySlug :: "string \<Rightarrow> postUpdate" where
  "onlySlug s = \<lparr>u_title = None, u_slug = Some s, u_excerpt = None, u_content = None,
     u_status = None\<rparr>"

text \<open>The store that a successful operation returns.\<close>

definition storeOf :: "error + store \<Rightarrow> store" where
  "storeOf r = (case r of Inl e \<Rightarrow> \<lparr>posts = [], versions = (\<lambda>_. [])\<rparr> | Inr st \<Rightarrow> st)"

definition succeeded :: "error + store \<Rightarrow> bool" where
  "succeeded r = (case r of Inl e \<Rightarrow> False | Inr st \<Rightarrow> True)"

section \<open>Concrete stores\<close>

text \<open>
  A store with one published post, first published at time 5, that was once called
  \<open>old-notes\<close>.
\<close>

definition notesPost :: post where
  "notesPost = \<lparr>p_id = ''p1'', title = ''Notes'', slug = ''notes'', oldSlugs = [''old-notes''],
     excerpt = [], content = ''saved text'', status = Published, publishedAt = Some 5,
     createdAt = 1, updatedAt = 5, preview = None\<rparr>"

definition notesStore :: store where
  "notesStore = \<lparr>posts = [notesPost], versions = (\<lambda>_. [])\<rparr>"

text \<open>
  An input for \<open>createPost\<close> whose title and slug are the given string, and a store
  whose only post is a draft with an enabled preview token.
\<close>

definition titledInput :: "string \<Rightarrow> postInput" where
  "titledInput s = \<lparr>i_title = s, i_slug = s, i_excerpt = [], i_content = ''text'', i_status = Draft\<rparr>"

definition previewStore :: store where
  "previewStore = \<lparr>posts = [notesPost\<lparr>status := Draft, publishedAt := None,
      preview := Some \<lparr>pv_token = Some ''secret'', pv_enabled = True, pv_createdAt = 6\<rparr>\<rparr>],
    versions = (\<lambda>_. [])\<rparr>"

text \<open>
  The post \<open>p1\<close> with a log of \<open>n\<close> versions, version \<open>k\<close> created at time
  \<open>k\<close>, and a sequence of \<open>n\<close> manual saves with new ids.
\<close>

definition numbered :: "nat \<Rightarrow> version" where
  "numbered k = \<lparr>v_id = replicate k CHR ''v'', v_title = ''Notes'', v_slug = ''notes'',
     v_excerpt = [], v_content = ''text'', v_status = Draft, v_createdAt = k, v_note = None\<rparr>"

definition storeWithVersions :: "nat \<Rightarrow> store" where
  "storeWithVersions n =
     \<lparr>posts = [notesPost],
      versions = (\<lambda>i. if i = ''p1'' then map numbered [1..<Suc n] else [])\<rparr>"

definition manualSaves :: "nat \<Rightarrow> (string \<times> nat \<times> string option) list" where
  "manualSaves n = map (\<lambda>k. (replicate k CHR ''n'', 100 + k, Some ''Manual save'')) [1..<Suc n]"

text \<open>The store \<open>notesStore\<close> after its post has been renamed twice.\<close>

definition renamed1 :: store where
  "renamed1 = storeOf (updatePost 10 ''p1'' (onlySlug ''Notes Two'') notesStore)"

definition renamed2 :: store where
  "renamed2 = storeOf (updatePost 11 ''p1'' (onlySlug ''Notes Three'') renamed1)"

section \<open>Concrete editor states\<close>

text \<open>
  An editing session on the existing post \<open>p1\<close>: \<open>savedDraft\<close> is what the store
  holds, \<open>draftA\<close> and \<open>draftB\<close> are two later edits of the content.
\<close>

definition savedDraft :: postData where
  "savedDraft = \<lparr>d_title = ''Notes'', d_slug = ''notes'', d_excerpt = [],
     d_content = ''saved text'', d_status = Draft\<rparr>"

definition draftA :: postData where
  "draftA = savedDraft\<lparr>d_content := ''first edit''\<rparr>"

definition draftB :: postData where
  "draftB = savedDraft\<lparr>d_content := ''second edit''\<rparr>"

definition cleanEditor :: editor where
  "cleanEditor = \<lparr>form = savedDraft, saveState = Idle, lastSavedData = savedDraft,
     currentPostId = Some ''p1'', isSaving = False, pendingSave = False, saveId = 0,
     autosaveTimer = False, followUpTimers = [], fetched = [], saveSuccesses = [],
     authErrors = 0\<rparr>"

definition okBody :: "jsonBody option" where
  "okBody = Some \<lparr>j_id = None, j_error = None\<rparr>"

text \<open>
  Two saves in flight at once. The autosave of \<open>draftA\<close> is in flight when the user
  presses Ctrl+S, which sets the pending flag; the save fails with status 500 and its
  \<^verbatim>\<open>finally\<close> block sets the 100 ms timer. Before the timer runs the user edits to
  \<open>draftB\<close> and presses Ctrl+S: save A is sent. Then the timer runs and sends save B.
  The response of B is handled first.
\<close>

definition race0 :: "editor \<times> inflight option" where
  "race0 = autosaveTimerFires (Some ''tok'') draftA (setFields draftA cleanEditor)"

definition race1 :: editor where
  "race1 = performSave_completion 40 (the (snd race0)) (Response 500 None)
             (fst (handleManualSave (Some ''tok'') draftA (fst race0)))"

definition raceA :: "editor \<times> inflight option" where
  "raceA = handleManualSave (Some ''tok'') draftB (setFields draftB race1)"

definition raceB :: "editor \<times> inflight option" where
  "raceB = followUpTimer (Some ''tok'') (fst raceA)"

definition raceAfterB :: editor where
  "raceAfterB = performSave_completion 60 (the (snd raceB)) (Response 200 okBody) (fst raceB)"

text \<open>
  Two saves in flight at once in the editor of a new post, which has no post id yet.
  The user types \<open>draftA\<close> and the autosave sends it with POST; while it is in
  flight the user presses Ctrl+S, which sets the pending flag; the request fails with
  status 500, no post is created, and the \<^verbatim>\<open>finally\<close> block sets the 100 ms
  timer. Before the timer runs the user edits to \<open>draftC\<close> (another slug) and presses
  Ctrl+S: save A is sent with POST. Then the timer runs and sends save B, with POST too
  as there is still no post id. The server creates one post for each. The response of
  B is handled first, then the response of A.
\<close>

definition blankDraft :: postData where
  "blankDraft = \<lparr>d_title = [], d_slug = [], d_excerpt = [], d_content = [], d_status = Draft\<rparr>"

definition draftC :: postData where
  "draftC = \<lparr>d_title = ''Notes 2'', d_slug = ''notes-2'', d_excerpt = [],
     d_content = ''second edit'', d_status = Draft\<rparr>"

definition newEditor :: editor where
  "newEditor = \<lparr>form = blankDraft, saveState = Idle, lastSavedData = blankDraft,
     currentPostId = None, isSaving = False, pendingSave = False, saveId = 0,
     autosaveTimer = False, followUpTimers = [], fetched = [], saveSuccesses = [],
     authErrors = 0\<rparr>"

definition createdBody :: "string \<Rightarrow> jsonBody option" where
  "createdBody i = Some \<lparr>j_id = Some i, j_error = None\<rparr>"

definition failedBody :: "jsonBody option" where
  "failedBody = Some \<lparr>j_id = None, j_error = Some ''Failed to create post''\<rparr>"

definition new0 :: "editor \<times> inflight option" where
  "new0 = autosaveTimerFires (Some ''tok'') draftA (setFields draftA newEditor)"

definition new1 :: editor where
  "new1 = performSave_completion 40 (the (snd new0)) (Response 500 failedBody)
            (fst (handleManualSave (Some ''tok'') draftA (fst new0)))"

definition newA :: "editor \<times> inflight option" where
  "newA = handleManualSave (Some ''tok'') draftC (setFields draftC new1)"

definition newB :: "editor \<times> inflight option" where
  "newB = followUpTimer (Some ''tok'') (fst newA)"

definition newAfterB :: editor where
  "newAfterB = performSave_completion 60 (the (snd newB)) (Response 201 (createdBody ''idB''))
                 (fst newB)"

definition newAfterA :: editor where
  "newAfterA = performSave_completion 61 (the (snd newA)) (Response 201 (createdBody ''idA''))
                 newAfterB"

text \<open>
  Typing while a save is in flight: the user edits to \<open>draftA\<close> and the autosave
  sends it; while it is in flight the user edits to \<open>draftB\<close> and presses Ctrl+S
  twice; then the first save succeeds and the 100 ms timer of its \<^verbatim>\<open>finally\<close>
  block runs.
\<close>

definition typing1 :: "editor \<times> inflight option" where
  "typing1 = autosaveTimerFires (Some ''tok'') draftA (setFields draftA cleanEditor)"

definition typing2 :: editor where
  "typing2 = setFields draftB (fst typing1)"

definition typing3 :: editor where
  "typing3 = fst (handleManualSave (Some ''tok'') draftB typing2)"

definition typing4 :: editor where
  "typing4 = fst (handleManualSave (Some ''tok'') draftB typing3)"

definition typing5 :: editor where
  "typing5 = performSave_completion 50 (the (snd typing1)) (Response 200 okBody) typing4"

definition typing6 :: "editor \<times> inflight option" where
  "typing6 = followUpTimer (Some ''tok'') typing5"

text \<open>
  Restoring a version in a clean editor, and the debounce timer running out afterwards
  with no further action of the user.
\<close>

definition restored1 :: editor where
  "restored1 = restoreInEditor draftA cleanEditor"

definition restored2 :: "editor \<times> inflight option" where
  "restored2 = autosaveTimerFires (Some ''tok'') draftA restored1"

section \<open>Properties of normalizeSlug\<close>

lemma hyphen_not_slugChar [simp]: "\<not> isSlugChar CHR ''-''"
  by (simp add: isSlugChar_def less_eq_char_def)

lemma slugChar_not_space: "isSlugChar c \<Longrightarrow> \<not> isSpace c"
  by (auto simp: isSlugChar_def isSpace_def less_eq_char_def)

lemma slugChar_lower: "isSlugChar c \<Longrightarrow> lowerChar c = c"
  by (auto simp: isSlugChar_def lowerChar_def less_eq_char_def)

lemma hyphen_lower [simp]: "lowerChar CHR ''-'' = CHR ''-''"
  by (simp add: lowerChar_def less_eq_char_def)

lemma shaped_replaceRuns: "shaped b (replaceRuns b s)"
  by (induction s arbitrary: b) auto

lemma replaceRuns_shaped: "shaped b t \<Longrightarrow> replaceRuns b t = t"
  by (induction t arbitrary: b) (auto split: if_splits)

lemma shaped_weaken: "shaped True t \<Longrightarrow> shaped b t"
  by (cases t) (auto split: if_splits)

lemma shaped_chars: "shaped b t \<Longrightarrow> c \<in> set t \<Longrightarrow> isSlugChar c \<or> c = CHR ''-''"
  by (induction t arbitrary: b) (auto split: if_splits)

lemma shaped_prefix: "shaped b (xs @ ys) \<Longrightarrow> shaped b xs"
  by (induction xs arbitrary: b) (auto split: if_splits)

lemma shaped_no_double: "\<not> shaped b (ys @ [CHR ''-'', CHR ''-''])"
  by (induction ys arbitrary: b) simp_all

lemma shaped_stripLeading: "shaped False u \<Longrightarrow> shaped True (stripLeading u)"
proof (cases u)
  case Nil
  then show ?thesis by (simp add: stripLeading_def)
next
  case (Cons c cs)
  assume sh: "shaped False u"
  show ?thesis
  proof (cases "c = CHR ''-''")
    case True
    with sh Cons show ?thesis by (simp add: stripLeading_def)
  next
    case False
    with sh Cons have "isSlugChar c" by (cases "isSlugChar c") simp_all
    with sh Cons False show ?thesis by (simp add: stripLeading_def)
  qed
qed

lemma slugShaped_stripTrailing: "shaped True x \<Longrightarrow> slugShaped (stripTrailing x)"
proof (cases x rule: rev_cases)
  case Nil
  then show ?thesis by (simp add: slugShaped_def stripTrailing_def)
next
  case (snoc ys y)
  assume sh: "shaped True x"
  show ?thesis
  proof (cases "y = CHR ''-''")
    case False
    with snoc sh show ?thesis by (simp add: slugShaped_def stripTrailing_def)
  next
    case True
    have sb: "shaped True ys" using sh snoc shaped_prefix by blast
    have "ys = [] \<or> last ys \<noteq> CHR ''-''"
    proof (cases ys rule: rev_cases)
      case Nil then show ?thesis by simp
    next
      case (snoc zs z)
      with \<open>x = ys @ [y]\<close> have "x = zs @ [z, y]" by simp
      with sh shaped_no_double True have "z \<noteq> CHR ''-''" by auto
      with snoc show ?thesis by simp
    qed
    with sb True snoc show ?thesis by (simp add: slugShaped_def stripTrailing_def)
  qed
qed

lemma normalizeSlug_shaped: "slugShaped (normalizeSlug s)"
  by (simp add: normalizeSlug_def stripEnds_def hyphenate_def slugShaped_stripTrailing
        shaped_stripLeading shaped_replaceRuns)

lemma slugShaped_fixed:
  assumes "slugShaped t"
  shows "normalizeSlug t = t"
proof -
  from assms have sh: "shaped True t" and la: "t = [] \<or> last t \<noteq> CHR ''-''"
    by (simp_all add: slugShaped_def)
  have chars: "\<And>c. c \<in> set t \<Longrightarrow> isSlugChar c \<or> c = CHR ''-''"
    using sh shaped_chars by blast
  have "\<And>c. c \<in> set t \<Longrightarrow> lowerChar c = c"
    using chars slugChar_lower hyphen_lower by blast
  then have low: "toLowerCase t = t"
    unfolding toLowerCase_def by (simp add: map_idI)
  have hd_ok: "isSlugChar c" if "t = c # cs" for c cs
    using sh that by (auto split: if_splits)
  have last_ok: "isSlugChar c" if "t = cs @ [c]" for c cs
    using la chars that by auto
  have d1: "dropWhile isSpace t = t"
    using hd_ok slugChar_not_space by (cases t) auto
  have d2: "dropWhile isSpace (rev t) = rev t"
    using last_ok slugChar_not_space by (cases t rule: rev_cases) auto
  have tr: "trim t = t" by (simp add: trim_def d1 d2)
  have hy: "hyphenate t = t"
    by (simp add: hyphenate_def replaceRuns_shaped shaped_weaken sh)
  have sl: "stripLeading t = t"
    using hd_ok by (cases t) (auto simp: stripLeading_def)
  have st: "stripTrailing t = t"
    using la by (auto simp: stripTrailing_def)
  show ?thesis by (simp add: normalizeSlug_def stripEnds_def low tr hy sl st)
qed

lemma normalizeSlug_idem: "normalizeSlug (normalizeSlug s) = normalizeSlug s"
  by (rule slugShaped_fixed [OF normalizeSlug_shaped])


section \<open>Properties of the content store\<close>

subsection \<open>Queries and single documents\<close>

lemma find_SomeD: "find P xs = Some x \<Longrightarrow> x \<in> set xs \<and> P x"
  by (induction xs) (auto split: if_splits)

lemma find_None: "find P xs = None \<longleftrightarrow> (\<forall>x\<in>set xs. \<not> P x)"
  by (induction xs) auto

lemma queryFirst_None: "queryFirst P st = None \<longleftrightarrow> (\<forall>p\<in>set (posts st). \<not> P p)"
  by (simp add: queryFirst_def find_None)

lemma queryFirst_Some: "queryFirst P st = Some p \<Longrightarrow> p \<in> set (posts st) \<and> P p"
  using find_SomeD [of P "sort_key p_id (posts st)" p] by (simp add: queryFirst_def)

lemma find_unique:
  assumes "p \<in> set xs" and "P p" and "\<forall>q\<in>set xs. P q \<longrightarrow> q = p"
  shows "find P xs = Some p"
proof -
  from assms(1,2) have "find P xs \<noteq> None" by (auto simp: find_None)
  then obtain q where q: "find P xs = Some q" by blast
  from find_SomeD [OF q] assms(3) have "q = p" by blast
  with q show ?thesis by simp
qed

lemma queryFirst_unique:
  assumes "p \<in> set (posts st)" and "P p" and "\<forall>q\<in>set (posts st). P q \<longrightarrow> q = p"
  shows "queryFirst P st = Some p"
proof -
  from assms(1) have a1: "p \<in> set (sort_key p_id (posts st))" by (simp only: set_sort)
  from assms(3) have a3: "\<forall>q\<in>set (sort_key p_id (posts st)). P q \<longrightarrow> q = p"
    by (simp only: set_sort)
  show ?thesis unfolding queryFirst_def by (rule find_unique [OF a1 assms(2) a3])
qed

lemma getDoc_Some: "getDoc i st = Some p \<Longrightarrow> p \<in> set (posts st) \<and> p_id p = i"
  using find_SomeD [of "\<lambda>p. p_id p = i" "posts st" p] by (simp add: getDoc_def)

lemma getDoc_None: "getDoc i st = None \<longleftrightarrow> i \<notin> p_id ` set (posts st)"
  by (auto simp: getDoc_def find_None)

lemma find_map_update:
  assumes "\<And>p. p_id (f p) = p_id p"
  shows "find (\<lambda>p. p_id p = i) (map (\<lambda>p. if p_id p = j then f p else p) xs)
           = map_option (\<lambda>p. if p_id p = j then f p else p) (find (\<lambda>p. p_id p = i) xs)"
  using assms by (induction xs) auto

lemma getDoc_updateDoc:
  assumes "\<And>p. p_id (f p) = p_id p"
  shows "getDoc i (updateDoc j f st)
           = map_option (\<lambda>p. if p_id p = j then f p else p) (getDoc i st)"
  using find_map_update [OF assms] by (simp add: getDoc_def updateDoc_def)

lemma versions_updateDoc [simp]: "versions (updateDoc j f st) = versions st"
  by (simp add: updateDoc_def)

lemma posts_updateDoc: "posts (updateDoc j f st) = map (\<lambda>p. if p_id p = j then f p else p) (posts st)"
  by (simp add: updateDoc_def)

lemma posts_updateDoc_cases:
  assumes "p \<in> set (posts (updateDoc i f st))"
  shows "(\<exists>q\<in>set (posts st). p_id q = i \<and> p = f q) \<or> (p \<in> set (posts st) \<and> p_id p \<noteq> i)"
  using assms by (auto simp: posts_updateDoc split: if_splits)

subsection \<open>publishedAt\<close>

lemma publishPost_keeps_publishedAt:
  assumes "getDoc i st = Some p" and "publishedAt p = Some t"
  shows "\<exists>st' p'. publishPost now i st = Inr st' \<and> getDoc i st' = Some p' \<and> publishedAt p' = Some t"
  using assms getDoc_Some [OF assms(1)]
  by (simp add: publishPost_def getDoc_updateDoc)

lemma unpublishPost_keeps_publishedAt:
  assumes "getDoc i st = Some p"
  shows "\<exists>st' p'. unpublishPost now i st = Inr st' \<and> getDoc i st' = Some p' \<and>
           publishedAt p' = publishedAt p \<and> status p' = Draft"
  using assms getDoc_Some [OF assms]
  by (simp add: unpublishPost_def getDoc_updateDoc)

lemma togglePostStatus_keeps_publishedAt:
  assumes "getDoc i st = Some p" and "publishedAt p = Some t"
  shows "\<exists>st' p'. togglePostStatus now i st = Inr st' \<and> getDoc i st' = Some p' \<and> publishedAt p' = Some t"
  using assms getDoc_Some [OF assms(1)]
  by (simp add: togglePostStatus_def getDoc_updateDoc Let_def)

text \<open>
  \<open>updatePost\<close> computes \<open>publishedAt\<close> from the status that the save carries
  and the stored status alone: whatever was stored is kept only when the save carries
  no status, or carries \<open>published\<close> for a post that is published already.
\<close>

lemma updatePost_publishedAt:
  assumes "updatePost now i d st = Inr st'" and "getDoc i st = Some cur"
  shows "\<exists>p'. getDoc i st' = Some p' \<and>
           publishedAt p' =
             (if u_status d = Some Published \<and> status cur \<noteq> Published then Some now
              else if u_status d = Some Draft then None
              else publishedAt cur)"
proof -
  have curid: "p_id cur = i" using getDoc_Some [OF assms(2)] by simp
  let ?new = "case u_slug d of None \<Rightarrow> None
              | Some s \<Rightarrow> if s = [] then None else Some (normalizeSlug s)"
  let ?changing = "case ?new of None \<Rightarrow> False | Some n \<Rightarrow> n \<noteq> [] \<and> n \<noteq> slug cur"
  let ?f = "\<lambda>p. p\<lparr>publishedAt :=
                    (if u_status d = Some Published \<and> status cur \<noteq> Published then Some now
                     else if u_status d = Some Draft then None
                     else publishedAt cur),
                 updatedAt := now,
                 title := setIfDefined (u_title d) (title p),
                 excerpt := setIfDefined (u_excerpt d) (excerpt p),
                 content := setIfDefined (u_content d) (content p),
                 status := setIfDefined (u_status d) (status p),
                 slug := (if ?changing then the ?new else slug p),
                 oldSlugs := (if ?changing \<and> slug cur \<noteq> [] \<and> slug cur \<notin> set (oldSlugs cur)
                              then oldSlugs cur @ [slug cur] else oldSlugs p)\<rparr>"
  have "updatePost now i d st =
          (if ?changing \<and> \<not> isSlugAvailable (the ?new) (Some i) st then Inl SlugExists
           else Inr (updateDoc i ?f st))"
    unfolding updatePost_def Let_def by (simp only: assms(2) option.case)
  with assms(1) have st': "st' = updateDoc i ?f st"
    by (cases "?changing \<and> \<not> isSlugAvailable (the ?new) (Some i) st") simp_all
  have "getDoc i st' = Some (?f cur)"
    unfolding st' using assms(2) curid by (simp add: getDoc_updateDoc)
  then show ?thesis by simp
qed

text \<open>
  Claim C1, evaluated on the code. The post \<open>p1\<close> was first published at time 5.
  A save that carries the status \<open>draft\<close> clears \<open>publishedAt\<close>; and after
  \<open>unpublishPost\<close>, which keeps it, a save that carries the status \<open>published\<close>
  sets it to the time of this save.
\<close>

theorem updatePost_loses_publishedAt:
  "map_option publishedAt (docAfter ''p1'' (Inr notesStore)) = Some (Some 5) \<and>
   map_option publishedAt (docAfter ''p1'' (updatePost 9 ''p1'' (onlyStatus Draft) notesStore))
     = Some None \<and>
   map_option publishedAt (docAfter ''p1'' (unpublishPost 8 ''p1'' notesStore)) = Some (Some 5) \<and>
   map_option publishedAt (docAfter ''p1''
       (andThen (unpublishPost 8 ''p1'' notesStore) (updatePost 9 ''p1'' (onlyStatus Published))))
     = Some (Some 9)"
  by code_simp

subsection \<open>Slug conflicts\<close>

lemma isSlugAvailable_new:
  "isSlugAvailable s None st \<longleftrightarrow> (\<forall>p\<in>set (posts st). slug p \<noteq> normalizeSlug s)"
  by (auto simp: isSlugAvailable_def Let_def queryFirst_None split: option.splits
        dest: queryFirst_Some)

text \<open>
  Claim C6 (as amended). \<open>createPost\<close> fails with the slug conflict exactly when the
  normalized slug is the live slug of a post in the store; otherwise it succeeds and
  appends the new post with this live slug and no retired slugs. The retired slugs of
  the posts in the store play no part.
\<close>

theorem createPost_conflict:
  "((createPost newId now d st = Inl SlugExists) \<longleftrightarrow>
      (\<exists>p\<in>set (posts st). slug p = normalizeSlug (i_slug d))) \<and>
   ((\<forall>p\<in>set (posts st). slug p \<noteq> normalizeSlug (i_slug d)) \<longrightarrow>
      (\<exists>st'. createPost newId now d st = Inr (newId, st') \<and>
         map slug (posts st') = map slug (posts st) @ [normalizeSlug (i_slug d)] \<and>
         map oldSlugs (posts st') = map oldSlugs (posts st) @ [[]]))"
  by (auto simp: createPost_def Let_def isSlugAvailable_new normalizeSlug_idem)

theorem createPost_conflict_witness:
  "(\<exists>p\<in>set (posts notesStore). slug p = normalizeSlug (i_slug (titledInput ''Notes''))) \<and>
   createPost ''p2'' 9 (titledInput ''Notes'') notesStore = Inl SlugExists"
proof -
  have ex: "\<exists>p\<in>set (posts notesStore). slug p = normalizeSlug (i_slug (titledInput ''Notes''))"
    by code_simp
  with createPost_conflict [of "''p2''" 9 "titledInput ''Notes''" notesStore]
  show ?thesis by blast
qed

text \<open>
  Claim C6 as stated fails: \<open>old-notes\<close> is a retired slug of the post \<open>p1\<close>, and
  a new post with the slug \<open>Old Notes\<close>, normalized to \<open>old-notes\<close>, is created
  while \<open>p1\<close> still lists it.
\<close>

theorem retired_slug_can_be_claimed:
  "notesPost \<in> set (posts notesStore) \<and> ''old-notes'' \<in> set (oldSlugs notesPost) \<and>
   normalizeSlug (i_slug (titledInput ''Old Notes'')) = ''old-notes'' \<and>
   (case createPost ''p2'' 9 (titledInput ''Old Notes'') notesStore of
      Inl e \<Rightarrow> False
    | Inr (i, st') \<Rightarrow> i = ''p2'' \<and> map slug (posts st') = [''notes'', ''old-notes''] \<and>
        map oldSlugs (posts st') = [[''old-notes''], []])"
  by code_simp

subsection \<open>Renaming a post\<close>

lemma normalizeSlug_Nil: "normalizeSlug [] = []"
  by (simp add: normalizeSlug_def stripEnds_def stripTrailing_def stripLeading_def hyphenate_def
        trim_def toLowerCase_def)

lemma same_id_same_post:
  assumes "distinct (map p_id (posts st))" and "p \<in> set (posts st)" and "q \<in> set (posts st)"
    and "p_id p = p_id q"
  shows "p = q"
proof -
  from assms(1) have "inj_on p_id (set (posts st))" by (simp add: distinct_map)
  from inj_onD [OF this assms(4) assms(2) assms(3)] show ?thesis .
qed

lemma ids_updateDoc:
  assumes "\<And>p. p_id (f p) = p_id p"
  shows "map p_id (posts (updateDoc i f st)) = map p_id (posts st)"
  by (simp add: updateDoc_def assms comp_def cong: map_cong)

lemma updatePost_rename:
  assumes "updatePost now i d st = Inr st'" and "getDoc i st = Some cur"
    and "u_slug d = Some b" and "normalizeSlug b \<noteq> []" and "normalizeSlug b \<noteq> slug cur"
  shows "isSlugAvailable (normalizeSlug b) (Some i) st \<and>
         (\<exists>f. st' = updateDoc i f st \<and> (\<forall>p. p_id (f p) = p_id p) \<and>
              slug (f cur) = normalizeSlug b \<and>
              oldSlugs (f cur) = (if slug cur \<noteq> [] \<and> slug cur \<notin> set (oldSlugs cur)
                                  then oldSlugs cur @ [slug cur] else oldSlugs cur) \<and>
              status (f cur) = setIfDefined (u_status d) (status cur))"
proof -
  from assms(4) have b: "b \<noteq> []" using normalizeSlug_Nil by auto
  have av: "isSlugAvailable (normalizeSlug b) (Some i) st"
  proof (rule ccontr)
    assume "\<not> isSlugAvailable (normalizeSlug b) (Some i) st"
    with assms(2-5) b have "updatePost now i d st = Inl SlugExists"
      by (simp add: updatePost_def Let_def)
    with assms(1) show False by simp
  qed
  let ?f = "\<lambda>p. p\<lparr>publishedAt :=
                    (if u_status d = Some Published \<and> status cur \<noteq> Published then Some now
                     else if u_status d = Some Draft then None
                     else publishedAt cur),
                 updatedAt := now,
                 title := setIfDefined (u_title d) (title p),
                 excerpt := setIfDefined (u_excerpt d) (excerpt p),
                 content := setIfDefined (u_content d) (content p),
                 status := setIfDefined (u_status d) (status p),
                 slug := normalizeSlug b,
                 oldSlugs := (if slug cur \<noteq> [] \<and> slug cur \<notin> set (oldSlugs cur)
                              then oldSlugs cur @ [slug cur] else oldSlugs p)\<rparr>"
  from assms b av have "st' = updateDoc i ?f st"
    by (simp add: updatePost_def Let_def)
  moreover have "\<forall>p. p_id (?f p) = p_id p" by simp
  moreover have "slug (?f cur) = normalizeSlug b" by simp
  moreover have "oldSlugs (?f cur) = (if slug cur \<noteq> [] \<and> slug cur \<notin> set (oldSlugs cur)
                                  then oldSlugs cur @ [slug cur] else oldSlugs cur)" by simp
  moreover have "status (?f cur) = setIfDefined (u_status d) (status cur)" by simp
  ultimately show ?thesis using av by blast
qed

lemma isSlugAvailable_excluding:
  assumes "isSlugAvailable s (Some i) st" and "normalizeSlug s = s"
    and "distinct (map p_id (posts st))" and "getDoc i st = Some cur" and "slug cur \<noteq> s"
    and "q \<in> set (posts st)"
  shows "slug q \<noteq> s"
proof (cases "queryFirst (\<lambda>p. slug p = s) st")
  case None
  with assms(6) show ?thesis by (simp add: queryFirst_None)
next
  case (Some d)
  from queryFirst_Some [OF Some] have d: "d \<in> set (posts st)" "slug d = s" by simp_all
  from assms(1,2) Some have "p_id d = i" by (simp add: isSlugAvailable_def)
  moreover from getDoc_Some [OF assms(4)] have "cur \<in> set (posts st)" "p_id cur = i" by simp_all
  ultimately have "d = cur" using same_id_same_post [OF assms(3) d(1)] by simp
  with d(2) assms(5) show ?thesis by simp
qed


lemma rename_step:
  assumes ids: "distinct (map p_id (posts st))" and cur: "getDoc i st = Some cur"
    and u: "updatePost now i d st = Inr st'" and s: "u_slug d = Some b"
    and ne: "normalizeSlug b \<noteq> []" and ch: "normalizeSlug b \<noteq> slug cur"
  shows "\<exists>cur'. getDoc i st' = Some cur' \<and> slug cur' = normalizeSlug b \<and>
           oldSlugs cur' = (if slug cur \<noteq> [] \<and> slug cur \<notin> set (oldSlugs cur)
                            then oldSlugs cur @ [slug cur] else oldSlugs cur) \<and>
           status cur' = setIfDefined (u_status d) (status cur) \<and>
           distinct (map p_id (posts st')) \<and>
           (\<forall>q\<in>set (posts st'). p_id q \<noteq> i \<longrightarrow> q \<in> set (posts st)) \<and>
           (\<forall>q\<in>set (posts st'). p_id q = i \<longrightarrow> q = cur') \<and>
           (\<forall>q\<in>set (posts st'). p_id q \<noteq> i \<longrightarrow> slug q \<noteq> normalizeSlug b)"
proof -
  from updatePost_rename [OF u cur s ne ch] obtain f where
    av: "isSlugAvailable (normalizeSlug b) (Some i) st"
    and st': "st' = updateDoc i f st" and fid: "\<And>p. p_id (f p) = p_id p"
    and fs: "slug (f cur) = normalizeSlug b"
    and fo: "oldSlugs (f cur) = (if slug cur \<noteq> [] \<and> slug cur \<notin> set (oldSlugs cur)
                                  then oldSlugs cur @ [slug cur] else oldSlugs cur)"
    and ft: "status (f cur) = setIfDefined (u_status d) (status cur)"
    by blast
  have curid: "p_id cur = i" and curin: "cur \<in> set (posts st)"
    using getDoc_Some [OF cur] by simp_all
  have g: "getDoc i st' = Some (f cur)"
    unfolding st' using cur curid by (simp add: getDoc_updateDoc [of f, OF fid])
  have d': "distinct (map p_id (posts st'))"
    unfolding st' using ids by (simp only: ids_updateDoc [of f, OF fid])
  have others: "\<forall>q\<in>set (posts st'). p_id q \<noteq> i \<longrightarrow> q \<in> set (posts st)"
  proof (intro ballI impI)
    fix q assume "q \<in> set (posts st')" and n: "p_id q \<noteq> i"
    then have "q \<in> set (posts (updateDoc i f st))" by (simp only: st')
    from posts_updateDoc_cases [OF this] n fid show "q \<in> set (posts st)" by metis
  qed
  have own: "\<forall>q\<in>set (posts st'). p_id q = i \<longrightarrow> q = f cur"
  proof (intro ballI impI)
    fix q assume q: "q \<in> set (posts st')" and e: "p_id q = i"
    from getDoc_Some [OF g] have "f cur \<in> set (posts st')" and "p_id (f cur) = i" by simp_all
    with same_id_same_post [OF d' q, of "f cur"] e show "q = f cur" by simp
  qed
  have free: "\<forall>q\<in>set (posts st'). p_id q \<noteq> i \<longrightarrow> slug q \<noteq> normalizeSlug b"
  proof (intro ballI impI)
    fix q assume q: "q \<in> set (posts st')" and n: "p_id q \<noteq> i"
    with others have "q \<in> set (posts st)" by blast
    from isSlugAvailable_excluding [OF av normalizeSlug_idem ids cur ch [symmetric] this]
    show "slug q \<noteq> normalizeSlug b" .
  qed
  from g fs fo ft d' others own free show ?thesis by blast
qed


lemma resolvePost_direct:
  assumes "p \<in> set (posts st)" and "slug p = normalizeSlug s" and "status p = Published"
    and "\<forall>q\<in>set (posts st). slug q = normalizeSlug s \<and> status q = Published \<longrightarrow> q = p"
  shows "resolvePost s st = \<lparr>r_post = Some p, shouldRedirect = False, redirectSlug = None\<rparr>"
proof -
  have "queryFirst (\<lambda>q. slug q = normalizeSlug s \<and> status q = Published) st = Some p"
    using assms(1) _ assms(4) by (rule queryFirst_unique) (simp add: assms(2,3))
  then show ?thesis by (simp add: resolvePost_def getPostBySlug_def Let_def)
qed

lemma resolvePost_redirect:
  assumes "p \<in> set (posts st)" and "normalizeSlug s \<in> set (oldSlugs p)" and "status p = Published"
    and "\<forall>q\<in>set (posts st). \<not> (slug q = normalizeSlug s \<and> status q = Published)"
    and "\<forall>q\<in>set (posts st). normalizeSlug s \<in> set (oldSlugs q) \<and> status q = Published \<longrightarrow> q = p"
  shows "resolvePost s st = \<lparr>r_post = Some p, shouldRedirect = True, redirectSlug = Some (slug p)\<rparr>"
proof -
  have a: "queryFirst (\<lambda>q. slug q = normalizeSlug s \<and> status q = Published) st = None"
    using assms(4) by (simp only: queryFirst_None)
  have b: "queryFirst (\<lambda>q. normalizeSlug s \<in> set (oldSlugs q) \<and> status q = Published) st = Some p"
    using assms(1) _ assms(5) by (rule queryFirst_unique) (simp add: assms(2,3))
  show ?thesis
    by (simp add: resolvePost_def getPostBySlug_def getPostByOldSlug_def Let_def a b)
qed

text \<open>
  Claim C5 (as amended). A post with the non-empty live slug A is renamed to B and
  then to C, three different slugs, by two successful calls of \<open>updatePost\<close> in a
  store with distinct ids. After the first call the live slug is B and A is among the
  retired slugs; after the second the live slug is C and the retired slugs are the old
  ones with A and B added, without duplicates if there were none. If the post is
  published after the second call, a request for C returns the post itself, and a
  request whose normalized form is A or B returns the post with the instruction to
  redirect to C, provided that no other published post has this slug as its live slug
  or among its retired slugs.
\<close>

theorem rename_twice:
  assumes ids: "distinct (map p_id (posts st0))" and p0: "getDoc i st0 = Some p0"
    and u1: "updatePost n1 i d1 st0 = Inr st1" and s1: "u_slug d1 = Some b"
    and u2: "updatePost n2 i d2 st1 = Inr st2" and s2: "u_slug d2 = Some c"
    and neA: "slug p0 \<noteq> []" and neB: "normalizeSlug b \<noteq> []" and neC: "normalizeSlug c \<noteq> []"
    and AB: "slug p0 \<noteq> normalizeSlug b" and BC: "normalizeSlug b \<noteq> normalizeSlug c"
    and AC: "slug p0 \<noteq> normalizeSlug c"
  shows "\<exists>p1 p2.
           getDoc i st1 = Some p1 \<and> slug p1 = normalizeSlug b \<and>
           set (oldSlugs p1) = insert (slug p0) (set (oldSlugs p0)) \<and>
           getDoc i st2 = Some p2 \<and> slug p2 = normalizeSlug c \<and>
           set (oldSlugs p2) = insert (normalizeSlug b) (insert (slug p0) (set (oldSlugs p0))) \<and>
           (distinct (oldSlugs p0) \<longrightarrow> distinct (oldSlugs p1) \<and> distinct (oldSlugs p2)) \<and>
           (status p2 = Published \<longrightarrow>
              resolvePost c st2 = \<lparr>r_post = Some p2, shouldRedirect = False, redirectSlug = None\<rparr> \<and>
              (\<forall>a. (normalizeSlug a = slug p0 \<or> normalizeSlug a = normalizeSlug b) \<and>
                    (\<forall>q\<in>set (posts st2). p_id q \<noteq> i \<and> status q = Published \<longrightarrow>
                       slug q \<noteq> normalizeSlug a \<and> normalizeSlug a \<notin> set (oldSlugs q)) \<longrightarrow>
                 resolvePost a st2 =
                   \<lparr>r_post = Some p2, shouldRedirect = True,
                    redirectSlug = Some (normalizeSlug c)\<rparr>))"
proof -
  from rename_step [OF ids p0 u1 s1 neB AB [symmetric]] obtain p1 where
    g1: "getDoc i st1 = Some p1" and sl1: "slug p1 = normalizeSlug b"
    and o1: "oldSlugs p1 = (if slug p0 \<noteq> [] \<and> slug p0 \<notin> set (oldSlugs p0)
                            then oldSlugs p0 @ [slug p0] else oldSlugs p0)"
    and ids1: "distinct (map p_id (posts st1))"
    by blast
  have BC': "normalizeSlug c \<noteq> slug p1" using BC sl1 by simp
  from rename_step [OF ids1 g1 u2 s2 neC BC'] obtain p2 where
    g2: "getDoc i st2 = Some p2" and sl2: "slug p2 = normalizeSlug c"
    and o2: "oldSlugs p2 = (if slug p1 \<noteq> [] \<and> slug p1 \<notin> set (oldSlugs p1)
                            then oldSlugs p1 @ [slug p1] else oldSlugs p1)"
    and own: "\<forall>q\<in>set (posts st2). p_id q = i \<longrightarrow> q = p2"
    and free: "\<forall>q\<in>set (posts st2). p_id q \<noteq> i \<longrightarrow> slug q \<noteq> normalizeSlug c"
    by blast
  have set1: "set (oldSlugs p1) = insert (slug p0) (set (oldSlugs p0))"
    using o1 neA by auto
  have set2: "set (oldSlugs p2) = insert (normalizeSlug b) (insert (slug p0) (set (oldSlugs p0)))"
    using o2 sl1 neB set1 by auto
  have dist: "distinct (oldSlugs p0) \<longrightarrow> distinct (oldSlugs p1) \<and> distinct (oldSlugs p2)"
    using o1 o2 by auto
  have in2: "p2 \<in> set (posts st2)" using getDoc_Some [OF g2] by simp
  have res: "resolvePost c st2 = \<lparr>r_post = Some p2, shouldRedirect = False, redirectSlug = None\<rparr> \<and>
              (\<forall>a. (normalizeSlug a = slug p0 \<or> normalizeSlug a = normalizeSlug b) \<and>
                    (\<forall>q\<in>set (posts st2). p_id q \<noteq> i \<and> status q = Published \<longrightarrow>
                       slug q \<noteq> normalizeSlug a \<and> normalizeSlug a \<notin> set (oldSlugs q)) \<longrightarrow>
                 resolvePost a st2 =
                   \<lparr>r_post = Some p2, shouldRedirect = True,
                    redirectSlug = Some (normalizeSlug c)\<rparr>)"
    if pub: "status p2 = Published"
  proof (intro conjI allI impI)
    have "\<forall>q\<in>set (posts st2). slug q = normalizeSlug c \<and> status q = Published \<longrightarrow> q = p2"
      using own free by blast
    from resolvePost_direct [OF in2 sl2 pub this]
    show "resolvePost c st2 = \<lparr>r_post = Some p2, shouldRedirect = False, redirectSlug = None\<rparr>" .
  next
    fix a
    assume h: "(normalizeSlug a = slug p0 \<or> normalizeSlug a = normalizeSlug b) \<and>
                    (\<forall>q\<in>set (posts st2). p_id q \<noteq> i \<and> status q = Published \<longrightarrow>
                       slug q \<noteq> normalizeSlug a \<and> normalizeSlug a \<notin> set (oldSlugs q))"
    then have x: "normalizeSlug a = slug p0 \<or> normalizeSlug a = normalizeSlug b"
      and oth: "\<forall>q\<in>set (posts st2). p_id q \<noteq> i \<and> status q = Published \<longrightarrow>
                       slug q \<noteq> normalizeSlug a \<and> normalizeSlug a \<notin> set (oldSlugs q)"
      by blast+
    from x set2 have old: "normalizeSlug a \<in> set (oldSlugs p2)" by auto
    from x AC BC sl2 have notlive: "slug p2 \<noteq> normalizeSlug a" by auto
    have nolive: "\<forall>q\<in>set (posts st2). \<not> (slug q = normalizeSlug a \<and> status q = Published)"
      using own oth notlive by blast
    have uniq: "\<forall>q\<in>set (posts st2).
                  normalizeSlug a \<in> set (oldSlugs q) \<and> status q = Published \<longrightarrow> q = p2"
      using own oth by blast
    from resolvePost_redirect [OF in2 old pub nolive uniq] sl2
    show "resolvePost a st2 =
            \<lparr>r_post = Some p2, shouldRedirect = True, redirectSlug = Some (normalizeSlug c)\<rparr>"
      by simp
  qed
  from g1 sl1 set1 g2 sl2 set2 dist res show ?thesis by blast
qed


lemma succeeded_storeOf: "succeeded r \<Longrightarrow> r = Inr (storeOf r)"
  by (cases r) (simp_all add: succeeded_def storeOf_def)

theorem rename_twice_witness:
  "updatePost 10 ''p1'' (onlySlug ''Notes Two'') notesStore = Inr renamed1 \<and>
   updatePost 11 ''p1'' (onlySlug ''Notes Three'') renamed1 = Inr renamed2 \<and>
   (\<exists>p2. getDoc ''p1'' renamed2 = Some p2 \<and> slug p2 = ''notes-three'' \<and>
      set (oldSlugs p2) = {''notes-two'', ''notes'', ''old-notes''} \<and>
      resolvePost ''Notes Three'' renamed2
        = \<lparr>r_post = Some p2, shouldRedirect = False, redirectSlug = None\<rparr> \<and>
      resolvePost ''Notes'' renamed2
        = \<lparr>r_post = Some p2, shouldRedirect = True, redirectSlug = Some ''notes-three''\<rparr> \<and>
      resolvePost ''notes-two'' renamed2
        = \<lparr>r_post = Some p2, shouldRedirect = True, redirectSlug = Some ''notes-three''\<rparr>)"
proof -
  have "succeeded (updatePost 10 ''p1'' (onlySlug ''Notes Two'') notesStore)" by code_simp
  from succeeded_storeOf [OF this]
  have u1: "updatePost 10 ''p1'' (onlySlug ''Notes Two'') notesStore = Inr renamed1"
    by (simp only: renamed1_def)
  have "succeeded (updatePost 11 ''p1'' (onlySlug ''Notes Three'') renamed1)" by code_simp
  from succeeded_storeOf [OF this]
  have u2: "updatePost 11 ''p1'' (onlySlug ''Notes Three'') renamed1 = Inr renamed2"
    by (simp only: renamed2_def)
  have ids: "distinct (map p_id (posts notesStore))" by code_simp
  have p0: "getDoc ''p1'' notesStore = Some notesPost"
    by (simp add: getDoc_def notesStore_def notesPost_def)
  have s1: "u_slug (onlySlug ''Notes Two'') = Some ''Notes Two''" by (simp add: onlySlug_def)
  have s2: "u_slug (onlySlug ''Notes Three'') = Some ''Notes Three''" by (simp add: onlySlug_def)
  have A: "slug notesPost = ''notes''" by (simp add: notesPost_def)
  have B: "normalizeSlug ''Notes Two'' = ''notes-two''" by code_simp
  have C: "normalizeSlug ''Notes Three'' = ''notes-three''" by code_simp
  have O: "set (oldSlugs notesPost) = {''old-notes''}" by (simp add: notesPost_def)
  have neA: "slug notesPost \<noteq> []" and neB: "normalizeSlug ''Notes Two'' \<noteq> []"
    and neC: "normalizeSlug ''Notes Three'' \<noteq> []"
    and AB: "slug notesPost \<noteq> normalizeSlug ''Notes Two''"
    and BC: "normalizeSlug ''Notes Two'' \<noteq> normalizeSlug ''Notes Three''"
    and AC: "slug notesPost \<noteq> normalizeSlug ''Notes Three''"
    by (simp_all add: A B C)
  from rename_twice [OF ids p0 u1 s1 u2 s2 neA neB neC AB BC AC] obtain p2 where
    g2: "getDoc ''p1'' renamed2 = Some p2" and sl2: "slug p2 = normalizeSlug ''Notes Three''"
    and set2: "set (oldSlugs p2) = insert (normalizeSlug ''Notes Two'')
                 (insert (slug notesPost) (set (oldSlugs notesPost)))"
    and res: "status p2 = Published \<longrightarrow>
              resolvePost ''Notes Three'' renamed2
                = \<lparr>r_post = Some p2, shouldRedirect = False, redirectSlug = None\<rparr> \<and>
              (\<forall>a. (normalizeSlug a = slug notesPost \<or> normalizeSlug a = normalizeSlug ''Notes Two'') \<and>
                    (\<forall>q\<in>set (posts renamed2). p_id q \<noteq> ''p1'' \<and> status q = Published \<longrightarrow>
                       slug q \<noteq> normalizeSlug a \<and> normalizeSlug a \<notin> set (oldSlugs q)) \<longrightarrow>
                 resolvePost a renamed2 =
                   \<lparr>r_post = Some p2, shouldRedirect = True,
                    redirectSlug = Some (normalizeSlug ''Notes Three'')\<rparr>)"
    by blast
  have "map_option status (getDoc ''p1'' renamed2) = Some Published" by code_simp
  with g2 have pub: "status p2 = Published" by simp
  have n1: "normalizeSlug ''Notes'' = slug notesPost" unfolding A by code_simp
  have n2: "normalizeSlug ''notes-two'' = normalizeSlug ''Notes Two''" by code_simp
  have h1: "\<forall>q\<in>set (posts renamed2). p_id q \<noteq> ''p1'' \<and> status q = Published \<longrightarrow>
              slug q \<noteq> normalizeSlug ''Notes'' \<and> normalizeSlug ''Notes'' \<notin> set (oldSlugs q)"
    by code_simp
  have h2: "\<forall>q\<in>set (posts renamed2). p_id q \<noteq> ''p1'' \<and> status q = Published \<longrightarrow>
              slug q \<noteq> normalizeSlug ''notes-two'' \<and> normalizeSlug ''notes-two'' \<notin> set (oldSlugs q)"
    by code_simp
  from res pub have r0: "resolvePost ''Notes Three'' renamed2
                = \<lparr>r_post = Some p2, shouldRedirect = False, redirectSlug = None\<rparr>"
    and rr: "\<And>a. (normalizeSlug a = slug notesPost \<or> normalizeSlug a = normalizeSlug ''Notes Two'') \<Longrightarrow>
                    (\<forall>q\<in>set (posts renamed2). p_id q \<noteq> ''p1'' \<and> status q = Published \<longrightarrow>
                       slug q \<noteq> normalizeSlug a \<and> normalizeSlug a \<notin> set (oldSlugs q)) \<Longrightarrow>
                 resolvePost a renamed2 =
                   \<lparr>r_post = Some p2, shouldRedirect = True,
                    redirectSlug = Some (normalizeSlug ''Notes Three'')\<rparr>"
    by blast+
  from rr [of "''Notes''"] n1 h1
  have r1: "resolvePost ''Notes'' renamed2
        = \<lparr>r_post = Some p2, shouldRedirect = True, redirectSlug = Some ''notes-three''\<rparr>"
    by (simp only: C) blast
  from rr [of "''notes-two''"] n2 h2
  have r2: "resolvePost ''notes-two'' renamed2
        = \<lparr>r_post = Some p2, shouldRedirect = True, redirectSlug = Some ''notes-three''\<rparr>"
    by (simp only: C) blast
  from sl2 have sl: "slug p2 = ''notes-three''" by (simp only: C)
  from set2 have st: "set (oldSlugs p2) = {''notes-two'', ''notes'', ''old-notes''}"
    by (simp only: A B O)
  from u1 u2 g2 sl st r0 r1 r2 show ?thesis by blast
qed

text \<open>
  Claim C5 as stated fails for a post that is not published. The draft \<open>p1\<close> is
  renamed twice; its retired slugs are recorded, but a request for any of its slugs,
  old or current, finds nothing: the public read path looks at published posts only.
\<close>

theorem draft_rename_not_resolved:
  "(case andThen (updatePost 10 ''p1'' (onlySlug ''Notes Two'') previewStore)
           (updatePost 11 ''p1'' (onlySlug ''Notes Three'')) of
      Inl e \<Rightarrow> False
    | Inr st2 \<Rightarrow>
        map status (posts st2) = [Draft] \<and> map slug (posts st2) = [''notes-three''] \<and>
        map oldSlugs (posts st2) = [[''old-notes'', ''notes'', ''notes-two'']] \<and>
        resolvePost ''notes'' st2 = \<lparr>r_post = None, shouldRedirect = False, redirectSlug = None\<rparr> \<and>
        resolvePost ''notes-two'' st2 = \<lparr>r_post = None, shouldRedirect = False, redirectSlug = None\<rparr> \<and>
        resolvePost ''notes-three'' st2 = \<lparr>r_post = None, shouldRedirect = False, redirectSlug = None\<rparr>)"
  by code_simp

text \<open>
  The proviso about other posts is needed: after the two renames of the published post
  a new published post may take the retired slug \<open>notes\<close> as its live slug, and a
  request for \<open>notes\<close> then returns the new post and no redirect.
\<close>

lemma retired_slug_taken_over:
  "(case createPost ''p2'' 12 ((titledInput ''Notes'')\<lparr>i_status := Published\<rparr>) renamed2 of
      Inl e \<Rightarrow> False
    | Inr (i, st3) \<Rightarrow>
        map_option p_id (r_post (resolvePost ''notes'' st3)) = Some ''p2'' \<and>
        shouldRedirect (resolvePost ''notes'' st3) = False)"
  by code_simp

subsection \<open>Preview tokens\<close>

lemma getPostByPreviewToken_None:
  "getPostByPreviewToken t st = None \<longleftrightarrow> (\<forall>p\<in>set (posts st). \<not> previewMatches t p)"
proof -
  have "getPostByPreviewToken t st = None \<longleftrightarrow> queryFirst (previewMatches t) st = None"
    by (simp add: getPostByPreviewToken_def split: option.splits)
  then show ?thesis by (simp add: queryFirst_None)
qed

lemma getPostByPreviewToken_Some:
  "getPostByPreviewToken t st = Some (p, t') \<Longrightarrow>
     p \<in> set (posts st) \<and> previewMatches t p \<and> t' = t"
  by (auto simp: getPostByPreviewToken_def split: option.splits dest: queryFirst_Some)

lemma revoke_result:
  "revokePreviewToken now i st = Inr st' \<Longrightarrow>
     st' = updateDoc i
       (\<lambda>p. p\<lparr>preview := Some \<lparr>pv_token = None, pv_enabled = False, pv_createdAt = now\<rparr>\<rparr>) st"
  unfolding revokePreviewToken_def
  by (cases "getDoc i st") (simp_all only: option.case sum.inject sum.distinct)

lemma revoked_never_matches:
  "\<not> previewMatches t (p\<lparr>preview := Some \<lparr>pv_token = None, pv_enabled = False, pv_createdAt = n\<rparr>\<rparr>)"
  by (simp add: previewMatches_def)

text \<open>
  What the lookup returns, and that a revoked post no longer matches any token.
\<close>

lemma previewToken_core:
  "((getPostByPreviewToken t st = None) \<longleftrightarrow>
      (\<forall>p\<in>set (posts st). \<not> (\<exists>pv. preview p = Some pv \<and> pv_token pv = Some t \<and> pv_enabled pv))) \<and>
   (\<forall>p t'. getPostByPreviewToken t st = Some (p, t') \<longrightarrow>
      p \<in> set (posts st) \<and> t' = t \<and>
      (\<exists>pv. preview p = Some pv \<and> pv_token pv = Some t \<and> pv_enabled pv)) \<and>
   (\<forall>p\<in>set (posts st).
      previewMatches t p \<and> (\<forall>q\<in>set (posts st). previewMatches t q \<longrightarrow> q = p) \<longrightarrow>
      getPostByPreviewToken t st = Some (p, t)) \<and>
   (\<forall>now i st'. revokePreviewToken now i st = Inr st' \<longrightarrow>
      (\<forall>p\<in>set (posts st'). p_id p = i \<longrightarrow>
         preview p = Some \<lparr>pv_token = None, pv_enabled = False, pv_createdAt = now\<rparr>) \<and>
      ((\<forall>p\<in>set (posts st). p_id p \<noteq> i \<longrightarrow> \<not> previewMatches t p) \<longrightarrow>
         getPostByPreviewToken t st' = None))"
proof (intro conjI allI impI)
  show "(getPostByPreviewToken t st = None) \<longleftrightarrow>
      (\<forall>p\<in>set (posts st). \<not> (\<exists>pv. preview p = Some pv \<and> pv_token pv = Some t \<and> pv_enabled pv))"
    by (auto simp: getPostByPreviewToken_None previewMatches_def split: option.splits)
next
  fix p t' assume "getPostByPreviewToken t st = Some (p, t')"
  from getPostByPreviewToken_Some [OF this]
  show "p \<in> set (posts st)" and "t' = t"
    and "\<exists>pv. preview p = Some pv \<and> pv_token pv = Some t \<and> pv_enabled pv"
    by (auto simp: previewMatches_def split: option.splits)
next
  show "\<forall>p\<in>set (posts st).
      previewMatches t p \<and> (\<forall>q\<in>set (posts st). previewMatches t q \<longrightarrow> q = p) \<longrightarrow>
      getPostByPreviewToken t st = Some (p, t)"
  proof (intro ballI impI)
    fix p assume pin: "p \<in> set (posts st)"
      and h: "previewMatches t p \<and> (\<forall>q\<in>set (posts st). previewMatches t q \<longrightarrow> q = p)"
    from queryFirst_unique [OF pin conjunct1 [OF h] conjunct2 [OF h]]
    have "queryFirst (previewMatches t) st = Some p" .
    then show "getPostByPreviewToken t st = Some (p, t)"
      by (simp add: getPostByPreviewToken_def)
  qed
next
  fix now i st' assume r: "revokePreviewToken now i st = Inr st'"
  have st': "st' = updateDoc i
      (\<lambda>p. p\<lparr>preview := Some \<lparr>pv_token = None, pv_enabled = False, pv_createdAt = now\<rparr>\<rparr>) st"
    by (rule revoke_result [OF r])
  show "\<forall>p\<in>set (posts st'). p_id p = i \<longrightarrow>
         preview p = Some \<lparr>pv_token = None, pv_enabled = False, pv_createdAt = now\<rparr>"
  proof (intro ballI impI)
    fix p assume "p \<in> set (posts st')" and "p_id p = i"
    with posts_updateDoc_cases [of p i _ st] st'
    obtain q where "p = q\<lparr>preview := Some \<lparr>pv_token = None, pv_enabled = False, pv_createdAt = now\<rparr>\<rparr>"
      by blast
    then show "preview p = Some \<lparr>pv_token = None, pv_enabled = False, pv_createdAt = now\<rparr>"
      by simp
  qed
  assume others: "\<forall>p\<in>set (posts st). p_id p \<noteq> i \<longrightarrow> \<not> previewMatches t p"
  have "\<forall>p\<in>set (posts st'). \<not> previewMatches t p"
  proof
    fix p assume "p \<in> set (posts st')"
    with posts_updateDoc_cases [of p i _ st] st' others revoked_never_matches
    show "\<not> previewMatches t p" by blast
  qed
  then show "getPostByPreviewToken t st' = None"
    by (simp only: getPostByPreviewToken_None)
qed

lemma revoke_missing:
  "getDoc i st = None \<Longrightarrow> revokePreviewToken now i st = Inl PostNotFound"
  unfolding revokePreviewToken_def by (simp only: option.case)

lemma revoke_found:
  "getDoc i st = Some p \<Longrightarrow>
     revokePreviewToken now i st = Inr (updateDoc i
       (\<lambda>p. p\<lparr>preview := Some \<lparr>pv_token = None, pv_enabled = False, pv_createdAt = now\<rparr>\<rparr>) st)"
  unfolding revokePreviewToken_def by (simp only: option.case)

lemma getDoc_other_updateDoc:
  assumes "\<And>p. p_id (f p) = p_id p" and "j \<noteq> i"
  shows "getDoc j (updateDoc i f st) = getDoc j st"
proof (cases "getDoc j st")
  case None
  then show ?thesis by (simp add: getDoc_updateDoc [of f, OF assms(1)])
next
  case (Some q)
  with getDoc_Some [OF Some] assms(2) show ?thesis
    by (simp add: getDoc_updateDoc [of f, OF assms(1)])
qed

lemma revoke_effect:
  assumes "revokePreviewToken now i st = Inr st'"
  shows "(\<exists>p. getDoc i st = Some p \<and>
            getDoc i st' =
              Some (p\<lparr>preview := Some \<lparr>pv_token = None, pv_enabled = False, pv_createdAt = now\<rparr>\<rparr>)) \<and>
         (\<forall>j. j \<noteq> i \<longrightarrow> getDoc j st' = getDoc j st) \<and>
         map p_id (posts st') = map p_id (posts st) \<and>
         (\<forall>u p' u'. getPostByPreviewToken u st' = Some (p', u') \<longrightarrow> p_id p' \<noteq> i)"
proof -
  let ?f = "\<lambda>p. p\<lparr>preview := Some \<lparr>pv_token = None, pv_enabled = False, pv_createdAt = now\<rparr>\<rparr>"
  have fid: "\<And>p. p_id (?f p) = p_id p" by simp
  have st': "st' = updateDoc i ?f st" by (rule revoke_result [OF assms])
  obtain p where p: "getDoc i st = Some p"
  proof (cases "getDoc i st")
    case None
    from revoke_missing [OF None, of now] assms show ?thesis by simp
  next
    case (Some p)
    then show ?thesis by (rule that)
  qed
  have pid: "p_id p = i" using getDoc_Some [OF p] by simp
  have a: "getDoc i st' = Some (?f p)"
    unfolding st' using p pid by (simp add: getDoc_updateDoc [of ?f, OF fid])
  have b: "\<forall>j. j \<noteq> i \<longrightarrow> getDoc j st' = getDoc j st"
    unfolding st' using getDoc_other_updateDoc [of ?f, OF fid] by blast
  have c: "map p_id (posts st') = map p_id (posts st)"
    unfolding st' by (rule ids_updateDoc [of ?f, OF fid])
  have d: "\<forall>u p' u'. getPostByPreviewToken u st' = Some (p', u') \<longrightarrow> p_id p' \<noteq> i"
  proof (intro allI impI)
    fix u p' u' assume "getPostByPreviewToken u st' = Some (p', u')"
    from getPostByPreviewToken_Some [OF this]
    have pin: "p' \<in> set (posts (updateDoc i ?f st))" and m: "previewMatches u p'"
      by (simp_all add: st')
    show "p_id p' \<noteq> i"
    proof
      assume "p_id p' = i"
      with posts_updateDoc_cases [OF pin] obtain q where "p' = ?f q" by blast
      with m revoked_never_matches show False by blast
    qed
  qed
  from p a b c d show ?thesis by blast
qed

text \<open>
  Claim C7. \<open>getPostByPreviewToken\<close> returns nothing exactly when no post of the
  store has the given token stored with the preview enabled; a post it returns is in
  the store, has this token stored and the preview enabled, and its status is not
  looked at; a post that is the only one with this token stored and enabled is the one
  returned. \<open>revokePreviewToken\<close> fails with \<open>PostNotFound\<close> exactly when the post
  does not exist; when it succeeds the post is still in the store, equal to the post
  before except that its preview now holds no token, the flag off and the time of the
  call; every other post and the list of document ids are unchanged; and the revoked
  post is afterwards returned under no token at all: if no other post carries the
  token, the answer is the same \<open>None\<close> that an unknown token gets.
\<close>

theorem preview_resolve:
  "((getPostByPreviewToken t st = None) \<longleftrightarrow>
      (\<forall>p\<in>set (posts st). \<not> (\<exists>pv. preview p = Some pv \<and> pv_token pv = Some t \<and> pv_enabled pv))) \<and>
   (\<forall>p t'. getPostByPreviewToken t st = Some (p, t') \<longrightarrow>
      p \<in> set (posts st) \<and> t' = t \<and>
      (\<exists>pv. preview p = Some pv \<and> pv_token pv = Some t \<and> pv_enabled pv)) \<and>
   (\<forall>p\<in>set (posts st).
      previewMatches t p \<and> (\<forall>q\<in>set (posts st). previewMatches t q \<longrightarrow> q = p) \<longrightarrow>
      getPostByPreviewToken t st = Some (p, t)) \<and>
   (\<forall>now i st'. revokePreviewToken now i st = Inr st' \<longrightarrow>
      (\<forall>p\<in>set (posts st'). p_id p = i \<longrightarrow>
         preview p = Some \<lparr>pv_token = None, pv_enabled = False, pv_createdAt = now\<rparr>) \<and>
      ((\<forall>p\<in>set (posts st). p_id p \<noteq> i \<longrightarrow> \<not> previewMatches t p) \<longrightarrow>
         getPostByPreviewToken t st' = None)) \<and>
   (\<forall>now i st'. revokePreviewToken now i st = Inr st' \<longrightarrow>
      (\<exists>p. getDoc i st = Some p \<and>
         getDoc i st' =
           Some (p\<lparr>preview := Some \<lparr>pv_token = None, pv_enabled = False, pv_createdAt = now\<rparr>\<rparr>)) \<and>
      (\<forall>j. j \<noteq> i \<longrightarrow> getDoc j st' = getDoc j st) \<and>
      map p_id (posts st') = map p_id (posts st) \<and>
      (\<forall>u p' u'. getPostByPreviewToken u st' = Some (p', u') \<longrightarrow> p_id p' \<noteq> i)) \<and>
   (\<forall>now i. (getDoc i st = None \<longrightarrow> revokePreviewToken now i st = Inl PostNotFound) \<and>
            (getDoc i st \<noteq> None \<longrightarrow> (\<exists>st'. revokePreviewToken now i st = Inr st')))"
proof -
  note core = previewToken_core [of t st]
  have e: "\<forall>now i st'. revokePreviewToken now i st = Inr st' \<longrightarrow>
      (\<exists>p. getDoc i st = Some p \<and>
         getDoc i st' =
           Some (p\<lparr>preview := Some \<lparr>pv_token = None, pv_enabled = False, pv_createdAt = now\<rparr>\<rparr>)) \<and>
      (\<forall>j. j \<noteq> i \<longrightarrow> getDoc j st' = getDoc j st) \<and>
      map p_id (posts st') = map p_id (posts st) \<and>
      (\<forall>u p' u'. getPostByPreviewToken u st' = Some (p', u') \<longrightarrow> p_id p' \<noteq> i)"
    using revoke_effect by blast
  have f: "\<forall>now i. (getDoc i st = None \<longrightarrow> revokePreviewToken now i st = Inl PostNotFound) \<and>
            (getDoc i st \<noteq> None \<longrightarrow> (\<exists>st'. revokePreviewToken now i st = Inr st'))"
    using revoke_missing revoke_found by blast
  note c1 = core [THEN conjunct1]
  note c2 = core [THEN conjunct2, THEN conjunct1]
  note c3 = core [THEN conjunct2, THEN conjunct2, THEN conjunct1]
  note c4 = core [THEN conjunct2, THEN conjunct2, THEN conjunct2]
  from c1 c2 c3 c4 e f show ?thesis by (intro conjI)
qed

theorem preview_resolve_witness:
  "(\<exists>p t'. getPostByPreviewToken ''secret'' previewStore = Some (p, t') \<and> status p = Draft \<and>
      p \<in> set (posts previewStore) \<and> t' = ''secret'' \<and>
      (\<exists>pv. preview p = Some pv \<and> pv_token pv = Some ''secret'' \<and> pv_enabled pv)) \<and>
   getPostByPreviewToken ''guess'' previewStore = None \<and>
   (\<exists>st'. revokePreviewToken 7 ''p1'' previewStore = Inr st' \<and>
      getPostByPreviewToken ''secret'' st' = None \<and>
      map_option preview (getDoc ''p1'' st')
        = Some (Some \<lparr>pv_token = None, pv_enabled = False, pv_createdAt = 7\<rparr>) \<and>
      map p_id (posts st') = [''p1'']) \<and>
   revokePreviewToken 7 ''p9'' previewStore = Inl PostNotFound"
proof -
  obtain p t' where r: "getPostByPreviewToken ''secret'' previewStore = Some (p, t')"
      and d: "status p = Draft"
    by (simp add: getPostByPreviewToken_def queryFirst_def previewStore_def notesPost_def
          previewMatches_def)
  have n: "\<forall>p\<in>set (posts previewStore).
             \<not> (\<exists>pv. preview p = Some pv \<and> pv_token pv = Some ''guess'' \<and> pv_enabled pv)"
    by (simp add: previewStore_def notesPost_def)
  have g: "getDoc ''p1'' previewStore \<noteq> None"
    by (simp add: getDoc_def previewStore_def notesPost_def)
  note s6 = preview_resolve [of "''secret''" previewStore, THEN conjunct2, THEN conjunct2,
      THEN conjunct2, THEN conjunct2, THEN conjunct2, rule_format]
  have m: "getDoc ''p9'' previewStore = None"
    by (simp add: getDoc_def previewStore_def notesPost_def)
  from s6 [of "''p9''" 7] m have x: "revokePreviewToken 7 ''p9'' previewStore = Inl PostNotFound"
    by blast
  from s6 [of "''p1''" 7] g obtain st' where
    v: "revokePreviewToken 7 ''p1'' previewStore = Inr st'" by blast
  have o: "\<forall>p\<in>set (posts previewStore). p_id p \<noteq> ''p1'' \<longrightarrow> \<not> previewMatches ''secret'' p"
    by (simp add: previewStore_def notesPost_def)
  have ids: "map p_id (posts previewStore) = [''p1'']"
    by (simp add: previewStore_def notesPost_def)
  note s2 = preview_resolve [of "''secret''" previewStore, THEN conjunct2, THEN conjunct1, rule_format]
  note s4 = preview_resolve [of "''secret''" previewStore, THEN conjunct2, THEN conjunct2,
      THEN conjunct2, THEN conjunct1, rule_format]
  note s5 = preview_resolve [of "''secret''" previewStore, THEN conjunct2, THEN conjunct2,
      THEN conjunct2, THEN conjunct2, THEN conjunct1, rule_format]
  note g1 = preview_resolve [of "''guess''" previewStore, THEN conjunct1]
  from s2 [OF r] have a: "p \<in> set (posts previewStore) \<and> t' = ''secret'' \<and>
      (\<exists>pv. preview p = Some pv \<and> pv_token pv = Some ''secret'' \<and> pv_enabled pv)" .
  from g1 n have b: "getPostByPreviewToken ''guess'' previewStore = None" by (rule iffD2)
  from s4 [OF v] have "(\<forall>p\<in>set (posts previewStore). p_id p \<noteq> ''p1'' \<longrightarrow>
      \<not> previewMatches ''secret'' p) \<longrightarrow> getPostByPreviewToken ''secret'' st' = None"
    by (rule conjunct2)
  from this o have c: "getPostByPreviewToken ''secret'' st' = None" by (rule mp)
  from s5 [OF v] obtain q where
    "getDoc ''p1'' st' =
       Some (q\<lparr>preview := Some \<lparr>pv_token = None, pv_enabled = False, pv_createdAt = 7\<rparr>\<rparr>)"
    and i2: "map p_id (posts st') = map p_id (posts previewStore)"
    by blast
  then have e: "map_option preview (getDoc ''p1'' st')
        = Some (Some \<lparr>pv_token = None, pv_enabled = False, pv_createdAt = 7\<rparr>)"
    by simp
  from i2 ids have i3: "map p_id (posts st') = [''p1'']" by simp
  from r d a have "\<exists>p t'. getPostByPreviewToken ''secret'' previewStore = Some (p, t') \<and>
      status p = Draft \<and> p \<in> set (posts previewStore) \<and> t' = ''secret'' \<and>
      (\<exists>pv. preview p = Some pv \<and> pv_token pv = Some ''secret'' \<and> pv_enabled pv)"
    by blast
  moreover from v c e i3 have "\<exists>st'. revokePreviewToken 7 ''p1'' previewStore = Inr st' \<and>
      getPostByPreviewToken ''secret'' st' = None \<and>
      map_option preview (getDoc ''p1'' st')
        = Some (Some \<lparr>pv_token = None, pv_enabled = False, pv_createdAt = 7\<rparr>) \<and>
      map p_id (posts st') = [''p1'']"
    by (intro exI conjI)
  ultimately show ?thesis using b x by (intro conjI)
qed

subsection \<open>Retention of versions\<close>

lemma createVersion_found:
  "getDoc postId st = Some p \<Longrightarrow>
     createVersion newId now postId note st =
       Inr (newId, st\<lparr>versions := (versions st)
               (postId := evictOld (versions st postId @ [versionSnapshot newId now note p]))\<rparr>)"
  unfolding createVersion_def evictOld_def Let_def by (simp only: option.case)

lemma createVersion_missing:
  "getDoc postId st = None \<Longrightarrow> createVersion newId now postId note st = Inl PostNotFound"
  unfolding createVersion_def by (simp only: option.case)

lemma createVersion_Inr:
  assumes "createVersion newId now postId note st = Inr (r, st')"
  shows "\<exists>p. getDoc postId st = Some p \<and> r = newId \<and>
           st' = st\<lparr>versions := (versions st)
                   (postId := evictOld (versions st postId @ [versionSnapshot newId now note p]))\<rparr>"
proof (cases "getDoc postId st")
  case None
  from assms createVersion_missing [OF None, of newId now "note"] show ?thesis by simp
next
  case (Some p)
  from assms createVersion_found [OF Some, of newId now "note"]
  have "r = newId \<and> st' = st\<lparr>versions := (versions st)
          (postId := evictOld (versions st postId @ [versionSnapshot newId now note p]))\<rparr>"
    by (simp only: sum.inject prod.inject) blast
  with Some show ?thesis by blast
qed

lemma set_order [simp]: "set (orderByCreatedAtDesc xs) = set xs"
  by (simp add: orderByCreatedAtDesc_def)

lemma length_order [simp]: "length (orderByCreatedAtDesc xs) = length xs"
  by (simp add: orderByCreatedAtDesc_def)

lemma distinct_order [simp]: "distinct (orderByCreatedAtDesc xs) = distinct xs"
  by (simp add: orderByCreatedAtDesc_def)

lemma order_newest_first:
  "sorted_wrt (\<lambda>a b. v_createdAt b \<le> v_createdAt a) (orderByCreatedAtDesc xs)"
proof -
  have "sorted (map (\<lambda>v. (v_createdAt v, v_id v)) (sort_key (\<lambda>v. (v_createdAt v, v_id v)) xs))"
    by (rule sorted_sort_key)
  then have "sorted_wrt (\<lambda>a b. (v_createdAt a, v_id a) \<le> (v_createdAt b, v_id b))
               (sort_key (\<lambda>v. (v_createdAt v, v_id v)) xs)"
    by (simp add: sorted_map)
  then have "sorted_wrt (\<lambda>a b. v_createdAt a \<le> v_createdAt b)
               (sort_key (\<lambda>v. (v_createdAt v, v_id v)) xs)"
    by (rule sorted_wrt_mono_rel [rotated]) (auto simp: less_eq_prod_def)
  then show ?thesis
    by (simp add: orderByCreatedAtDesc_def sorted_wrt_rev)
qed

lemma take_drop_newer:
  assumes "k \<in> set (take n (orderByCreatedAtDesc xs))"
    and "g \<in> set (drop n (orderByCreatedAtDesc xs))"
  shows "v_createdAt g \<le> v_createdAt k"
proof -
  have "sorted_wrt (\<lambda>a b. v_createdAt b \<le> v_createdAt a)
          (take n (orderByCreatedAtDesc xs) @ drop n (orderByCreatedAtDesc xs))"
    using order_newest_first [of xs] by simp
  with assms show ?thesis unfolding sorted_wrt_append by blast
qed

lemma set_evictOld:
  assumes "distinct (map v_id xs)"
  shows "set (evictOld xs) = set (take MAX_VERSIONS (orderByCreatedAtDesc xs))"
proof (cases "length xs > MAX_VERSIONS")
  case False
  then show ?thesis by (simp add: evictOld_def Let_def)
next
  case True
  let ?S = "orderByCreatedAtDesc xs"
  have inj: "inj_on v_id (set xs)" and dx: "distinct xs"
    using assms by (simp_all add: distinct_map)
  have sub: "set (drop MAX_VERSIONS ?S) \<subseteq> set xs"
    using set_drop_subset [of MAX_VERSIONS ?S] by simp
  have mem: "v_id v \<in> v_id ` set (drop MAX_VERSIONS ?S) \<longleftrightarrow> v \<in> set (drop MAX_VERSIONS ?S)"
    if "v \<in> set xs" for v
    using that sub inj by (meson inj_on_image_mem_iff)
  have "set (evictOld xs) = set xs - set (drop MAX_VERSIONS ?S)"
    using True mem by (auto simp: evictOld_def Let_def)
  also have "set xs = set (take MAX_VERSIONS ?S) \<union> set (drop MAX_VERSIONS ?S)"
    using set_append [of "take MAX_VERSIONS ?S" "drop MAX_VERSIONS ?S"] by simp
  also have "\<dots> - set (drop MAX_VERSIONS ?S) = set (take MAX_VERSIONS ?S)"
  proof -
    have "distinct (take MAX_VERSIONS ?S @ drop MAX_VERSIONS ?S)" using dx by simp
    then have "set (take MAX_VERSIONS ?S) \<inter> set (drop MAX_VERSIONS ?S) = {}"
      unfolding distinct_append by blast
    then show ?thesis by blast
  qed
  finally show ?thesis .
qed

lemma distinct_evictOld: "distinct (map v_id xs) \<Longrightarrow> distinct (map v_id (evictOld xs))"
  by (simp add: evictOld_def Let_def distinct_map_filter)

lemma length_evictOld:
  assumes "distinct (map v_id xs)"
  shows "length (evictOld xs) = min MAX_VERSIONS (length xs)"
proof -
  have dx: "distinct xs" using assms by (simp add: distinct_map)
  have "distinct (evictOld xs)" using distinct_evictOld [OF assms] by (simp add: distinct_map)
  then have "length (evictOld xs) = card (set (evictOld xs))" by (simp add: distinct_card)
  also have "\<dots> = card (set (take MAX_VERSIONS (orderByCreatedAtDesc xs)))"
    by (simp only: set_evictOld [OF assms])
  also have "\<dots> = length (take MAX_VERSIONS (orderByCreatedAtDesc xs))"
    using dx by (intro distinct_card distinct_take) simp
  also have "\<dots> = min MAX_VERSIONS (length xs)" by (simp add: min.commute)
  finally show ?thesis .
qed

lemma evictOld_subset: "set (evictOld xs) \<subseteq> set xs"
  by (auto simp: evictOld_def Let_def)

lemma evictOld_below_cap: "length xs \<le> MAX_VERSIONS \<Longrightarrow> evictOld xs = xs"
  by (simp add: evictOld_def Let_def)

lemma evictOld_keeps_newest:
  assumes "distinct (map v_id xs)" and "kept \<in> set (evictOld xs)"
    and "gone \<in> set xs" and "gone \<notin> set (evictOld xs)"
  shows "v_createdAt gone \<le> v_createdAt kept"
proof -
  let ?S = "orderByCreatedAtDesc xs"
  from assms(2) have k: "kept \<in> set (take MAX_VERSIONS ?S)"
    by (simp only: set_evictOld [OF assms(1)])
  from assms(3) have "gone \<in> set (take MAX_VERSIONS ?S @ drop MAX_VERSIONS ?S)" by simp
  with assms(4) have g: "gone \<in> set (drop MAX_VERSIONS ?S)"
    unfolding set_append set_evictOld [OF assms(1)] by blast
  from take_drop_newer [OF k g] show ?thesis .
qed


lemma versions_after_createVersion:
  assumes "getDoc postId st = Some p"
  shows "\<exists>st'. createVersion newId now postId note st = Inr (newId, st') \<and> posts st' = posts st \<and>
           versions st' postId = evictOld (versions st postId @ [versionSnapshot newId now note p])"
  using createVersion_found [OF assms, of newId now "note"] by simp

lemma min_cap: "min (c::nat) (min c a + b) = min c (a + b)"
  by simp

lemma createVersions_length:
  assumes "getDoc postId st = Some p" and "distinct (map v_id (versions st postId))"
    and "distinct (map fst calls)"
    and "fst ` set calls \<inter> v_id ` set (versions st postId) = {}"
  shows "\<exists>st'. createVersions calls postId st = Inr st' \<and>
           length (versions st' postId)
             = (if calls = [] then length (versions st postId)
                else min MAX_VERSIONS (length (versions st postId) + length calls))"
  using assms
proof (induction calls arbitrary: st)
  case Nil
  then show ?case by simp
next
  case (Cons c calls)
  obtain newId now n where c: "c = (newId, now, n)" by (cases c)
  let ?added = "versions st postId @ [versionSnapshot newId now n p]"
  from versions_after_createVersion [OF Cons.prems(1), of newId now n]
  obtain st1 where cv: "createVersion newId now postId n st = Inr (newId, st1)"
    and p1: "posts st1 = posts st" and v1: "versions st1 postId = evictOld ?added"
    by blast
  have fresh: "newId \<notin> v_id ` set (versions st postId)"
    using Cons.prems(4) c by auto
  then have da: "distinct (map v_id ?added)"
    using Cons.prems(2) by (simp add: versionSnapshot_def)
  have g1: "getDoc postId st1 = Some p"
    using Cons.prems(1) p1 by (simp add: getDoc_def)
  have d1: "distinct (map v_id (versions st1 postId))"
    using distinct_evictOld [OF da] v1 by simp
  have l1: "length (versions st1 postId) = min MAX_VERSIONS (length (versions st postId) + 1)"
    using length_evictOld [OF da] v1 by simp
  have dc: "distinct (map fst calls)" using Cons.prems(3) by simp
  have "v_id ` set (versions st1 postId) \<subseteq> insert newId (v_id ` set (versions st postId))"
    using evictOld_subset [of ?added] v1 by (auto simp: versionSnapshot_def)
  moreover have "newId \<notin> fst ` set calls" using Cons.prems(3) c by auto
  moreover have "fst ` set calls \<inter> v_id ` set (versions st postId) = {}"
    using Cons.prems(4) by auto
  ultimately have f1: "fst ` set calls \<inter> v_id ` set (versions st1 postId) = {}" by blast
  from Cons.IH [OF g1 d1 dc f1]
  obtain st' where r: "createVersions calls postId st1 = Inr st'"
    and l: "length (versions st' postId)
             = (if calls = [] then length (versions st1 postId)
                else min MAX_VERSIONS (length (versions st1 postId) + length calls))"
    by blast
  have "createVersions (c # calls) postId st = Inr st'"
    using cv r c by simp
  moreover have "length (versions st' postId)
                   = min MAX_VERSIONS (length (versions st postId) + length (c # calls))"
    using l l1 by (cases "calls = []") (simp_all add: min_cap)
  ultimately show ?case by simp
qed

text \<open>
  Claim C4. A successful call of \<open>createVersion\<close>, on a version log whose ids
  are distinct and do not contain the new id, leaves \<open>min 20 (n + 1)\<close> versions
  where \<open>n\<close> were there before, so at most 20 whatever \<open>n\<close> was; every version
  it leaves was there before or is the new snapshot, and every version it has not kept
  is at most as recent as every version it has kept. The ids stay distinct. Any
  sequence of \<open>k > 0\<close> calls with fresh ids leaves \<open>min 20 (n + k)\<close> versions:
  21 calls leave exactly 20.
\<close>

theorem createVersion_retention:
  assumes "createVersion newId now postId note st = Inr (r, st')"
    and "distinct (map v_id (versions st postId))"
    and "newId \<notin> v_id ` set (versions st postId)"
  shows "length (versions st' postId) = min 20 (length (versions st postId) + 1) \<and>
         length (versions st' postId) \<le> 20 \<and>
         distinct (map v_id (versions st' postId)) \<and>
         (\<exists>p. getDoc postId st = Some p \<and>
            set (versions st' postId)
              \<subseteq> insert (versionSnapshot newId now note p) (set (versions st postId)) \<and>
            (\<forall>kept\<in>set (versions st' postId).
               \<forall>gone\<in>insert (versionSnapshot newId now note p) (set (versions st postId))
                         - set (versions st' postId).
                 v_createdAt gone \<le> v_createdAt kept)) \<and>
         (\<forall>calls. calls \<noteq> [] \<and> distinct (map fst calls) \<and>
                  fst ` set calls \<inter> v_id ` set (versions st postId) = {} \<longrightarrow>
            (\<exists>st''. createVersions calls postId st = Inr st'' \<and>
               length (versions st'' postId)
                 = min 20 (length (versions st postId) + length calls)))"
proof -
  from createVersion_Inr [OF assms(1)] obtain p where p: "getDoc postId st = Some p"
    and st': "st' = st\<lparr>versions := (versions st)
                (postId := evictOld (versions st postId @ [versionSnapshot newId now note p]))\<rparr>"
    by blast
  let ?added = "versions st postId @ [versionSnapshot newId now note p]"
  have v: "versions st' postId = evictOld ?added" by (simp add: st')
  have da: "distinct (map v_id ?added)"
    using assms(2,3) by (simp add: versionSnapshot_def)
  have len: "length (versions st' postId) = min 20 (length (versions st postId) + 1)"
    using length_evictOld [OF da] v by (simp add: MAX_VERSIONS_def)
  have dis: "distinct (map v_id (versions st' postId))"
    using distinct_evictOld [OF da] v by simp
  have sub: "set (versions st' postId)
               \<subseteq> insert (versionSnapshot newId now note p) (set (versions st postId))"
    using evictOld_subset [of ?added] v by auto
  have newest: "\<forall>kept\<in>set (versions st' postId).
               \<forall>gone\<in>insert (versionSnapshot newId now note p) (set (versions st postId))
                         - set (versions st' postId).
                 v_createdAt gone \<le> v_createdAt kept"
  proof (intro ballI)
    fix kept gone
    assume k: "kept \<in> set (versions st' postId)"
      and g: "gone \<in> insert (versionSnapshot newId now note p) (set (versions st postId))
                       - set (versions st' postId)"
    from k have k': "kept \<in> set (evictOld ?added)" by (simp only: v)
    from g have g1: "gone \<in> set ?added" by auto
    from g have g2: "gone \<notin> set (evictOld ?added)" by (simp add: v)
    from evictOld_keeps_newest [OF da k' g1 g2]
    show "v_createdAt gone \<le> v_createdAt kept" .
  qed
  have many: "\<forall>calls. calls \<noteq> [] \<and> distinct (map fst calls) \<and>
                  fst ` set calls \<inter> v_id ` set (versions st postId) = {} \<longrightarrow>
            (\<exists>st''. createVersions calls postId st = Inr st'' \<and>
               length (versions st'' postId)
                 = min 20 (length (versions st postId) + length calls))"
  proof (intro allI impI)
    fix calls :: "(string \<times> nat \<times> string option) list"
    assume a: "calls \<noteq> [] \<and> distinct (map fst calls) \<and>
                  fst ` set calls \<inter> v_id ` set (versions st postId) = {}"
    then have a1: "calls \<noteq> []" and a2: "distinct (map fst calls)"
      and a3: "fst ` set calls \<inter> v_id ` set (versions st postId) = {}"
      by blast+
    from createVersions_length [OF p assms(2) a2 a3] a1
    show "\<exists>st''. createVersions calls postId st = Inr st'' \<and>
               length (versions st'' postId)
                 = min 20 (length (versions st postId) + length calls)"
      by (simp add: MAX_VERSIONS_def)
  qed
  from len have "length (versions st' postId) \<le> 20" by simp
  with len dis p sub newest many show ?thesis by blast
qed


theorem createVersion_retention_witness:
  "(\<exists>st'. createVersion ''new'' 200 ''p1'' None (storeWithVersions 21) = Inr (''new'', st') \<and>
      length (versions (storeWithVersions 21) ''p1'') = 21 \<and>
      length (versions st' ''p1'') = 20) \<and>
   (\<exists>st''. createVersions (manualSaves 21) ''p1'' (storeWithVersions 0) = Inr st'' \<and>
      length (versions (storeWithVersions 0) ''p1'') = 0 \<and>
      length (versions st'' ''p1'') = 20)"
proof -
  have g: "getDoc ''p1'' (storeWithVersions n) = Some notesPost" for n
    by (simp add: getDoc_def storeWithVersions_def notesPost_def)
  from versions_after_createVersion [OF g, of "''new''" 200 None 21]
  obtain st' where cv: "createVersion ''new'' 200 ''p1'' None (storeWithVersions 21) = Inr (''new'', st')"
    by blast
  have d: "distinct (map v_id (versions (storeWithVersions 21) ''p1''))" by code_simp
  have f: "''new'' \<notin> v_id ` set (versions (storeWithVersions 21) ''p1'')" by code_simp
  have l: "length (versions (storeWithVersions 21) ''p1'') = 21" by code_simp
  from createVersion_retention [OF cv d f] l
  have one: "length (versions st' ''p1'') = 20" by simp
  from versions_after_createVersion [OF g, of "''new''" 200 None 0]
  obtain st0 where cv0: "createVersion ''new'' 200 ''p1'' None (storeWithVersions 0) = Inr (''new'', st0)"
    by blast
  have d0: "distinct (map v_id (versions (storeWithVersions 0) ''p1''))" by code_simp
  have f0: "''new'' \<notin> v_id ` set (versions (storeWithVersions 0) ''p1'')" by code_simp
  have l0: "length (versions (storeWithVersions 0) ''p1'') = 0" by code_simp
  have c1: "manualSaves 21 \<noteq> []" by code_simp
  have c2: "distinct (map fst (manualSaves 21))" by code_simp
  have c3: "fst ` set (manualSaves 21) \<inter> v_id ` set (versions (storeWithVersions 0) ''p1'') = {}"
    by code_simp
  have c4: "length (manualSaves 21) = 21" by code_simp
  note many = createVersion_retention [OF cv0 d0 f0, THEN conjunct2, THEN conjunct2,
      THEN conjunct2, THEN conjunct2, rule_format, of "manualSaves 21"]
  from many c1 c2 c3 obtain st'' where
    "createVersions (manualSaves 21) ''p1'' (storeWithVersions 0) = Inr st''"
    "length (versions st'' ''p1'')
       = min 20 (length (versions (storeWithVersions 0) ''p1'') + length (manualSaves 21))"
    by blast
  with l0 c4 have "createVersions (manualSaves 21) ''p1'' (storeWithVersions 0) = Inr st'' \<and>
      length (versions (storeWithVersions 0) ''p1'') = 0 \<and> length (versions st'' ''p1'') = 20"
    by simp
  with cv l one show ?thesis by blast
qed


subsection \<open>Restoring a version\<close>

lemma restoreVersion_Inr:
  assumes "restoreVersion newId now now' postId versionId st = Inr st'"
  shows "\<exists>p v. getDoc postId st = Some p \<and>
           find (\<lambda>v. v_id v = versionId) (versions st postId) = Some v \<and>
           st' = updateDoc postId
                   (\<lambda>q. q\<lparr>title := v_title v, slug := v_slug v, excerpt := v_excerpt v,
                          content := v_content v, status := v_status v, updatedAt := now'\<rparr>)
                   (st\<lparr>versions := (versions st)
                      (postId := evictOld (versions st postId @
                         [versionSnapshot newId now (Some ''Before restore'') p]))\<rparr>)"
proof (cases "getDoc postId st")
  case None
  with assms show ?thesis by (simp add: restoreVersion_def)
next
  case (Some p)
  note p = this
  show ?thesis
  proof (cases "find (\<lambda>v. v_id v = versionId) (versions st postId)")
    case None
    with assms p show ?thesis by (simp add: restoreVersion_def)
  next
    case (Some v)
    from assms p Some createVersion_found [OF p, of newId now "Some ''Before restore''"]
    have "st' = updateDoc postId
                   (\<lambda>q. q\<lparr>title := v_title v, slug := v_slug v, excerpt := v_excerpt v,
                          content := v_content v, status := v_status v, updatedAt := now'\<rparr>)
                   (st\<lparr>versions := (versions st)
                      (postId := evictOld (versions st postId @
                         [versionSnapshot newId now (Some ''Before restore'') p]))\<rparr>)"
      by (simp add: restoreVersion_def Let_def)
    with p Some show ?thesis by blast
  qed
qed

text \<open>
  What a successful \<open>restoreVersion\<close> of the version \<open>v\<close> does in the model. It
  writes the title, slug, excerpt, content and status of \<open>v\<close> and the new
  \<open>updatedAt\<close> to the post and leaves its other fields, \<open>publishedAt\<close> among them,
  as they were. The version log afterwards is the old log followed by one snapshot of
  the post as it was before, with the note \<open>Before restore\<close>, and then passed
  through the clean-up of \<open>createVersion\<close>: with fewer than 20 versions before
  nothing is removed. The logs of other posts are untouched.
\<close>

lemma restoreVersion_effect:
  assumes "restoreVersion newId now now' postId versionId st = Inr st'"
    and "distinct (map v_id (versions st postId))"
    and "newId \<notin> v_id ` set (versions st postId)"
  shows "\<exists>p v snap.
           getDoc postId st = Some p \<and> v \<in> set (versions st postId) \<and> v_id v = versionId \<and>
           snap = versionSnapshot newId now (Some ''Before restore'') p \<and>
           v_note snap = Some ''Before restore'' \<and>
           getDoc postId st' =
             Some (p\<lparr>title := v_title v, slug := v_slug v, excerpt := v_excerpt v,
                     content := v_content v, status := v_status v, updatedAt := now'\<rparr>) \<and>
           map_option publishedAt (getDoc postId st') = Some (publishedAt p) \<and>
           (length (versions st postId) < 20 \<longrightarrow>
              versions st' postId = versions st postId @ [snap]) \<and>
           (\<exists>keep. versions st' postId = filter keep (versions st postId @ [snap])) \<and>
           length (versions st' postId) = min 20 (length (versions st postId) + 1) \<and>
           (\<forall>kept\<in>set (versions st' postId).
              \<forall>gone\<in>set (versions st postId @ [snap]) - set (versions st' postId).
                v_createdAt gone \<le> v_createdAt kept) \<and>
           (\<forall>i. i \<noteq> postId \<longrightarrow> versions st' i = versions st i)"
proof -
  from restoreVersion_Inr [OF assms(1)] obtain p v where p: "getDoc postId st = Some p"
    and v: "find (\<lambda>v. v_id v = versionId) (versions st postId) = Some v"
    and st': "st' = updateDoc postId
                   (\<lambda>q. q\<lparr>title := v_title v, slug := v_slug v, excerpt := v_excerpt v,
                          content := v_content v, status := v_status v, updatedAt := now'\<rparr>)
                   (st\<lparr>versions := (versions st)
                      (postId := evictOld (versions st postId @
                         [versionSnapshot newId now (Some ''Before restore'') p]))\<rparr>)"
    by blast
  define snap where "snap = versionSnapshot newId now (Some ''Before restore'') p"
  let ?added = "versions st postId @ [snap]"
  have vs: "versions st' postId = evictOld ?added"
    by (simp add: st' snap_def)
  have other: "\<forall>i. i \<noteq> postId \<longrightarrow> versions st' i = versions st i"
    by (simp add: st')
  from find_SomeD [OF v] have vin: "v \<in> set (versions st postId)" and vid: "v_id v = versionId"
    by simp_all
  have pid: "p_id p = postId" using getDoc_Some [OF p] by simp
  have "getDoc postId (st\<lparr>versions := (versions st)
          (postId := evictOld (versions st postId @
             [versionSnapshot newId now (Some ''Before restore'') p]))\<rparr>) = Some p"
    using p by (simp add: getDoc_def)
  then have doc: "getDoc postId st' =
             Some (p\<lparr>title := v_title v, slug := v_slug v, excerpt := v_excerpt v,
                     content := v_content v, status := v_status v, updatedAt := now'\<rparr>)"
    unfolding st' using pid by (simp add: getDoc_updateDoc)
  then have pub: "map_option publishedAt (getDoc postId st') = Some (publishedAt p)"
    by simp
  have tagged: "v_note snap = Some ''Before restore''"
    by (simp add: snap_def versionSnapshot_def truthy_def)
  have da: "distinct (map v_id ?added)"
    using assms(2,3) by (simp add: snap_def versionSnapshot_def)
  have small: "length (versions st postId) < 20 \<longrightarrow> versions st' postId = ?added"
    using evictOld_below_cap [of ?added] vs by (simp add: MAX_VERSIONS_def)
  have filt: "\<exists>keep. versions st' postId = filter keep ?added"
    unfolding vs evictOld_def Let_def by blast
  have len: "length (versions st' postId) = min 20 (length (versions st postId) + 1)"
    using length_evictOld [OF da] vs by (simp add: MAX_VERSIONS_def)
  have newest: "\<forall>kept\<in>set (versions st' postId).
              \<forall>gone\<in>set ?added - set (versions st' postId).
                v_createdAt gone \<le> v_createdAt kept"
  proof (intro ballI)
    fix kept gone
    assume k: "kept \<in> set (versions st' postId)"
      and g: "gone \<in> set ?added - set (versions st' postId)"
    from k have k': "kept \<in> set (evictOld ?added)" by (simp only: vs)
    from g have g1: "gone \<in> set ?added" by blast
    from g have g2: "gone \<notin> set (evictOld ?added)" unfolding vs by blast
    from evictOld_keeps_newest [OF da k' g1 g2]
    show "v_createdAt gone \<le> v_createdAt kept" .
  qed
  from p vin vid snap_def tagged doc pub small filt len newest other
  show ?thesis by blast
qed

lemma restoreVersion_effect_example:
  "\<exists>st'. restoreVersion ''new'' 200 201 ''p1'' ''vv'' (storeWithVersions 3) = Inr st' \<and>
     length (versions (storeWithVersions 3) ''p1'') = 3 \<and>
     versions st' ''p1'' = versions (storeWithVersions 3) ''p1'' @
        [versionSnapshot ''new'' 200 (Some ''Before restore'') notesPost] \<and>
     map_option publishedAt (getDoc ''p1'' st') = Some (Some 5) \<and>
     map_option content (getDoc ''p1'' st') = Some ''text''"
proof -
  have g: "getDoc ''p1'' (storeWithVersions 3) = Some notesPost"
    by (simp add: getDoc_def storeWithVersions_def notesPost_def)
  have fv: "find (\<lambda>v. v_id v = ''vv'') (versions (storeWithVersions 3) ''p1'') = Some (numbered 2)"
    by code_simp
  obtain st' where r: "restoreVersion ''new'' 200 201 ''p1'' ''vv'' (storeWithVersions 3) = Inr st'"
    using g fv by (simp add: restoreVersion_def)
  have d: "distinct (map v_id (versions (storeWithVersions 3) ''p1''))" by code_simp
  have f: "''new'' \<notin> v_id ` set (versions (storeWithVersions 3) ''p1'')" by code_simp
  have l: "length (versions (storeWithVersions 3) ''p1'') = 3" by code_simp
  from restoreVersion_effect [OF r d f] obtain p v snap where
    e: "getDoc ''p1'' (storeWithVersions 3) = Some p"
       "v \<in> set (versions (storeWithVersions 3) ''p1'')" "v_id v = ''vv''"
       "snap = versionSnapshot ''new'' 200 (Some ''Before restore'') p"
       "getDoc ''p1'' st' =
             Some (p\<lparr>title := v_title v, slug := v_slug v, excerpt := v_excerpt v,
                     content := v_content v, status := v_status v, updatedAt := 201\<rparr>)"
       "map_option publishedAt (getDoc ''p1'' st') = Some (publishedAt p)"
       "length (versions (storeWithVersions 3) ''p1'') < 20 \<longrightarrow>
              versions st' ''p1'' = versions (storeWithVersions 3) ''p1'' @ [snap]"
    by blast
  from e(1) g have pp: "p = notesPost" by simp
  have "\<forall>w\<in>set (versions (storeWithVersions 3) ''p1''). v_content w = ''text''" by code_simp
  with e(2) have vc: "v_content v = ''text''" by blast
  have pa: "publishedAt notesPost = Some 5" by (simp add: notesPost_def)
  from e(5) vc have c: "map_option content (getDoc ''p1'' st') = Some ''text''" by simp
  from e(7) l e(4) pp have vs: "versions st' ''p1'' = versions (storeWithVersions 3) ''p1'' @
        [versionSnapshot ''new'' 200 (Some ''Before restore'') notesPost]" by simp
  from e(6) pp pa have pb: "map_option publishedAt (getDoc ''p1'' st') = Some (Some 5)" by simp
  from r l vs pb c show ?thesis by blast
qed

text \<open>
  Claim C8, evaluated on the code. The documentation of \<^verbatim>\<open>restoreVersion\<close> says
  that it does not delete other versions. The log of \<open>p1\<close> holds 20 versions,
  \<open>numbered 1\<close> the oldest. Restoring the second oldest (id \<open>vv\<close>) succeeds and
  leaves the log without \<open>numbered 1\<close>: it holds the versions 2 to 20 and the new
  \<open>Before restore\<close> snapshot. Restoring the oldest (id \<open>v\<close>) succeeds and
  removes this very version from the log.
\<close>

theorem restoreVersion_evicts_oldest:
  "numbered 1 \<in> set (versions (storeWithVersions 20) ''p1'') \<and>
   length (versions (storeWithVersions 20) ''p1'') = 20 \<and>
   (case restoreVersion ''new'' 200 201 ''p1'' ''vv'' (storeWithVersions 20) of
      Inl e \<Rightarrow> False
    | Inr st' \<Rightarrow> numbered 1 \<notin> set (versions st' ''p1'') \<and> length (versions st' ''p1'') = 20 \<and>
        versions st' ''p1'' = map numbered [2..<21] @
          [versionSnapshot ''new'' 200 (Some ''Before restore'') notesPost]) \<and>
   (case restoreVersion ''new'' 200 201 ''p1'' ''v'' (storeWithVersions 20) of
      Inl e \<Rightarrow> False
    | Inr st' \<Rightarrow> numbered 1 \<notin> set (versions st' ''p1'') \<and> length (versions st' ''p1'') = 20 \<and>
        find (\<lambda>w. v_id w = ''v'') (versions st' ''p1'') = None)"
  by code_simp

section \<open>Properties of the save coordinator\<close>

lemmas editor_defs =
  performSave_def performSave_completion_def finallyBlock_def tryBlock_def afterResponse_def
  catchBlock_def followUpTimer_def requestSave_def autoSave_def autosaveTimerFires_def
  handleChange_def fieldsEffect_def setFields_def handleManualSave_def handleVersionRestore_def
  restoreInEditor_def debouncedSave_def cancelDebouncedSave_def isDirty_def isPostDataEqual_def
  getCurrentData_def truthy_def ok_def

lemmas example_editor_defs =
  savedDraft_def draftA_def draftB_def cleanEditor_def okBody_def race0_def race1_def
  raceA_def raceB_def
  raceAfterB_def typing1_def typing2_def typing3_def typing4_def typing5_def typing6_def
  restored1_def restored2_def

subsection \<open>Sequence numbers\<close>

text \<open>
  A save that is sent gets the next sequence number, and no step of the coordinator
  lowers \<open>saveId\<close>: a save sent earlier has the lower number, and once a save has
  been sent \<open>saveId\<close> stays at or above its number.
\<close>

lemma performSave_number:
  "performSave token r cv note s = (s', Some h) \<Longrightarrow>
     thisSaveId h = saveId s + 1 \<and> saveId s' = saveId s + 1"
  by (auto simp: performSave_def Let_def split: option.splits)

lemma performSave_saveId_mono: "saveId s \<le> saveId (fst (performSave token r cv note s))"
  by (auto simp: performSave_def Let_def split: option.splits)

lemma later_save_has_higher_number:
  assumes "performSave tokenA rA cvA noteA s0 = (s1, Some hA)"
    and "saveId s1 \<le> saveId s1'"
    and "performSave tokenB rB cvB noteB s1' = (s2, Some hB)"
  shows "thisSaveId hA < thisSaveId hB \<and> thisSaveId hB \<le> saveId s2"
  using performSave_number [OF assms(1)] performSave_number [OF assms(3)] assms(2) by simp

text \<open>
  In the example the three requests carry \<open>draftA\<close> (the autosave that fails),
  \<open>draftB\<close> (save A, the manual save) and \<open>draftA\<close> again (save B, sent by the
  timer of the failed save), with the sequence numbers 1, 2 and 3.
\<close>

lemma race_requests:
  "map rq_body (fetched (fst raceB)) = [draftA, draftB, draftA] \<and>
   map rq_createVersion (fetched (fst raceB)) = [False, True, False] \<and>
   thisSaveId (the (snd race0)) = 1 \<and> thisSaveId (the (snd raceA)) = 2 \<and>
   thisSaveId (the (snd raceB)) = 3"
  by code_simp

lemma finallyBlock_frame:
  "saveState (finallyBlock h s) = saveState s"
  "lastSavedData (finallyBlock h s) = lastSavedData s"
  "saveSuccesses (finallyBlock h s) = saveSuccesses s"
  "authErrors (finallyBlock h s) = authErrors s"
  "saveId (finallyBlock h s) = saveId s"
  "fetched (finallyBlock h s) = fetched s"
  "form (finallyBlock h s) = form s"
  by (simp_all add: finallyBlock_def Let_def)

lemma tryBlock_saveId: "saveId (tryBlock now h out s) = saveId s"
  by (auto simp: tryBlock_def catchBlock_def afterResponse_def Let_def split: outcome.splits)

lemma completion_saveId: "saveId (performSave_completion now h out s) = saveId s"
  by (simp add: performSave_completion_def finallyBlock_frame tryBlock_saveId)

lemma stale_tryBlock:
  assumes "thisSaveId h \<noteq> saveId s"
  shows "saveState (tryBlock now h out s) = saveState s"
    and "lastSavedData (tryBlock now h out s) = lastSavedData s"
    and "saveSuccesses (tryBlock now h out s) = saveSuccesses s"
    and "authErrors (tryBlock now h out s) = authErrors s"
  using assms
  by (auto simp: tryBlock_def catchBlock_def afterResponse_def Let_def split: outcome.splits)

text \<open>
  What a stale completion leaves alone in every state. Save A was sent before save B,
  so A has the lower sequence number, and B has been sent, so \<open>saveId\<close> is at least
  the number of B. Then the completion of A, whatever its outcome (a response with any
  status code and body, or an exception of \<^verbatim>\<open>fetch\<close>), leaves \<open>saveState\<close>, the
  last-saved snapshot and the list of \<^verbatim>\<open>onSaveSuccess\<close> calls as they were.
\<close>

lemma stale_completion_keeps_state:
  assumes "thisSaveId hA < thisSaveId hB" and "thisSaveId hB \<le> saveId s"
  shows "saveState (performSave_completion now hA out s) = saveState s \<and>
         lastSavedData (performSave_completion now hA out s) = lastSavedData s \<and>
         saveSuccesses (performSave_completion now hA out s) = saveSuccesses s"
proof -
  from assms have "thisSaveId hA \<noteq> saveId s" by simp
  then show ?thesis
    by (simp add: performSave_completion_def finallyBlock_frame stale_tryBlock)
qed

lemma stale_completion_keeps_state_example:
  "thisSaveId (the (snd raceA)) < thisSaveId (the (snd raceB)) \<and>
   thisSaveId (the (snd raceB)) \<le> saveId raceAfterB \<and>
   saveState (performSave_completion 61 (the (snd raceA)) (Response 200 okBody) raceAfterB) = Saved 60 \<and>
   lastSavedData (performSave_completion 61 (the (snd raceA)) (Response 200 okBody) raceAfterB) = draftA \<and>
   saveSuccesses (performSave_completion 61 (the (snd raceA)) (Response 200 okBody) raceAfterB) = [''p1'']"
proof -
  have a: "thisSaveId (the (snd raceA)) < thisSaveId (the (snd raceB))"
    by code_simp
  have b: "thisSaveId (the (snd raceB)) \<le> saveId raceAfterB"
    by code_simp
  have c: "saveState raceAfterB = Saved 60 \<and> lastSavedData raceAfterB = draftA \<and>
           saveSuccesses raceAfterB = [''p1'']"
    by code_simp
  show ?thesis
    using a b c
      stale_completion_keeps_state [OF a b, of 61 "Response 200 okBody"]
    by simp
qed

text \<open>
  What the completion of a save does when a later save has been sent: the state is
  the one before, except that a successful POST has stored the id of its response in
  \<^verbatim>\<open>currentPostIdRef\<close> (the assignment comes before the comparison of the
  sequence numbers), and except for the \<^verbatim>\<open>finally\<close> block, which does nothing
  when no save is marked as running and none is pending, as is the case right after
  another completion.
\<close>

lemma stale_tryBlock_effect:
  assumes "thisSaveId h \<noteq> saveId s"
  shows "tryBlock now h out s =
     (case out of
        FetchFailed \<Rightarrow> s
      | Response code body \<Rightarrow>
          (case body of
             None \<Rightarrow> s
           | Some b \<Rightarrow> if posted h \<and> ok code then s\<lparr>currentPostId := j_id b\<rparr> else s))"
  using assms
  by (simp add: tryBlock_def catchBlock_def afterResponse_def Let_def
        split: outcome.splits option.splits)

lemma finallyBlock_idle: "\<not> isSaving s \<Longrightarrow> \<not> pendingSave s \<Longrightarrow> finallyBlock h s = s"
  by (simp add: finallyBlock_def Let_def)

lemma completion_idle:
  "\<not> isSaving (performSave_completion now h out s) \<and>
   \<not> pendingSave (performSave_completion now h out s)"
  by (simp add: performSave_completion_def finallyBlock_def Let_def)

lemma tryBlock_refs:
  "isSaving (tryBlock now h out s) = isSaving s"
  "pendingSave (tryBlock now h out s) = pendingSave s"
  by (auto simp: tryBlock_def catchBlock_def afterResponse_def Let_def split: outcome.splits)

lemma stale_completion_after_completion:
  assumes "s = performSave_completion nowB hB outB s0" and "thisSaveId hA \<noteq> saveId s"
  shows "performSave_completion now hA out s =
     (case out of
        FetchFailed \<Rightarrow> s
      | Response code body \<Rightarrow>
          (case body of
             None \<Rightarrow> s
           | Some b \<Rightarrow> if posted hA \<and> ok code then s\<lparr>currentPostId := j_id b\<rparr> else s))"
proof -
  from assms(1) completion_idle [of nowB hB outB s0]
  have idle: "\<not> isSaving s" "\<not> pendingSave s" by simp_all
  then have "\<not> isSaving (tryBlock now hA out s)" "\<not> pendingSave (tryBlock now hA out s)"
    by (simp_all add: tryBlock_refs)
  then have "performSave_completion now hA out s = tryBlock now hA out s"
    by (simp add: performSave_completion_def finallyBlock_idle)
  with stale_tryBlock_effect [OF assms(2)] show ?thesis by simp
qed

text \<open>
  Claim C2, evaluated on the code. In the editor of a new post, save A (sequence
  number 2) and save B (sequence number 3) are both sent with POST. The completion of
  B sets the post id to \<open>idB\<close>, reports \<open>idB\<close> with \<^verbatim>\<open>onSaveSuccess\<close>, and
  stores the fields of B as last saved. The completion of A, which is stale, then
  replaces the post id by \<open>idA\<close>: the state is no longer the one that the completion
  of B left, while the save state, the last-saved snapshot and the reported id still
  are those of B.
\<close>

theorem stale_post_overwrites_post_id:
  "thisSaveId (the (snd newA)) = 2 \<and> thisSaveId (the (snd newB)) = 3 \<and>
   saveId newAfterB = 3 \<and>
   map rq_postId (fetched newAfterB) = [None, None, None] \<and>
   map rq_body (fetched newAfterB) = [draftA, draftC, draftA] \<and>
   currentPostId newAfterB = Some ''idB'' \<and>
   saveSuccesses newAfterB = [''idB''] \<and>
   lastSavedData newAfterB = draftA \<and>
   saveState newAfterB = Saved 60 \<and>
   currentPostId newAfterA = Some ''idA'' \<and>
   saveSuccesses newAfterA = [''idB''] \<and>
   lastSavedData newAfterA = draftA \<and>
   saveState newAfterA = Saved 60 \<and>
   newAfterA = newAfterB\<lparr>currentPostId := Some ''idA''\<rparr> \<and>
   newAfterA \<noteq> newAfterB"
  by code_simp

subsection \<open>Authentication failures\<close>

text \<open>
  Claim C10 (as amended). A response with status 401 or 403 sets the save state to
  \<open>Error ''Authentication expired''\<close> and calls \<^verbatim>\<open>onAuthError\<close> once when the save
  is still the latest one sent; when a later save has been sent, the response is
  dropped by the staleness check, which comes first: the save state stays as it was
  and \<^verbatim>\<open>onAuthError\<close> is not called.
\<close>

theorem auth_failure_completion:
  assumes "code = 401 \<or> code = 403"
  shows "(thisSaveId h = saveId s \<longrightarrow>
            saveState (performSave_completion now h (Response code body) s)
              = Error ''Authentication expired'' \<and>
            authErrors (performSave_completion now h (Response code body) s) = authErrors s + 1) \<and>
         (thisSaveId h \<noteq> saveId s \<longrightarrow>
            saveState (performSave_completion now h (Response code body) s) = saveState s \<and>
            authErrors (performSave_completion now h (Response code body) s) = authErrors s)"
  using assms
  by (auto simp: performSave_completion_def finallyBlock_frame tryBlock_def afterResponse_def
        ok_def Let_def)

theorem auth_failure_completion_witness:
  "((401::nat) = 401 \<or> (401::nat) = 403) \<and>
   thisSaveId (the (snd raceB)) = saveId (fst raceB) \<and>
   saveState (performSave_completion 60 (the (snd raceB)) (Response 401 None) (fst raceB))
     = Error ''Authentication expired'' \<and>
   authErrors (performSave_completion 60 (the (snd raceB)) (Response 401 None) (fst raceB)) = 1"
proof -
  have a: "(401::nat) = 401 \<or> (401::nat) = 403" by simp
  have b: "thisSaveId (the (snd raceB)) = saveId (fst raceB)" by code_simp
  have c: "authErrors (fst raceB) = 0" by code_simp
  show ?thesis
    using a b c
      auth_failure_completion [OF a, of "the (snd raceB)" "fst raceB" 60 None]
    by simp
qed

text \<open>
  Claim C10 as stated fails: save A answers 401 after save B has been sent. The
  response is stale, the save state stays \<open>Saving\<close> and \<^verbatim>\<open>onAuthError\<close> has not
  been called.
\<close>

theorem stale_auth_failure_not_signalled:
  "thisSaveId (the (snd raceA)) \<noteq> saveId (fst raceB) \<and>
   authErrors (performSave_completion 60 (the (snd raceA)) (Response 401 None) (fst raceB)) = 0 \<and>
   saveState (performSave_completion 60 (the (snd raceA)) (Response 401 None) (fst raceB)) = Saving"
  by code_simp

subsection \<open>Saves requested while a save is in flight\<close>

text \<open>
  While \<^verbatim>\<open>isSavingRef\<close> is set, \<open>requestSave\<close> sends nothing: it sets the pending
  flag when the fields of its render differ from the last-saved snapshot, and does
  nothing otherwise.
\<close>

lemma requestSave_in_flight:
  "isSaving s \<Longrightarrow>
     requestSave token r cv note s = (s\<lparr>pendingSave := pendingSave s \<or> isDirty r s\<rparr>, None)"
  by (cases "pendingSave s") (simp_all add: requestSave_def)

text \<open>
  A completion clears the pending flag and sets at most one timer, whose callback sees
  the fields that this save has sent.
\<close>

lemma completion_pending:
  "pendingSave (performSave_completion now h out s) = False \<and>
   isSaving (performSave_completion now h out s) = False \<and>
   followUpTimers (performSave_completion now h out s)
     = followUpTimers s @ (if pendingSave s then [data h] else [])"
  by (auto simp: performSave_completion_def finallyBlock_def tryBlock_def catchBlock_def
        afterResponse_def Let_def split: outcome.splits)

text \<open>The timer sends at most one request, without version creation.\<close>

lemma followUpTimer_request:
  "fetched (fst (followUpTimer token s)) = fetched s \<or>
   (\<exists>req. fetched (fst (followUpTimer token s)) = fetched s @ [req] \<and>
          rq_createVersion req = False \<and> rq_versionNote req = None)"
  by (auto simp: followUpTimer_def performSave_def Let_def split: list.splits option.splits)

text \<open>
  The timer compares the fields that the finished save has sent with the last-saved
  snapshot. After a successful save that is still the latest these are equal, so no
  follow-up request is sent, whatever the form holds by then.
\<close>

lemma no_followUp_after_success:
  assumes "thisSaveId h = saveId s" and "ok code" and "code \<noteq> 401" and "code \<noteq> 403"
    and "body \<noteq> None" and "followUpTimers s = []"
  shows "fetched (fst (followUpTimer token (performSave_completion now h (Response code body) s)))
           = fetched s"
  using assms
  by (auto simp: followUpTimer_def performSave_completion_def finallyBlock_def tryBlock_def
        afterResponse_def isDirty_def isPostDataEqual_def getCurrentData_def Let_def)

text \<open>
  Claim C3, evaluated on the code. The autosave of \<open>draftA\<close> is in flight; the user
  edits the form to \<open>draftB\<close> and presses Ctrl+S twice. Both calls of \<open>requestSave\<close>
  only set the pending flag. The save succeeds, the flag is cleared and one timer is
  set; the timer runs and sends nothing. At the end one request has been sent (the
  first), the form still differs from the last-saved snapshot, no timer is left, and
  the save state reads \<open>Saved\<close>: the follow-up save that the claim promises is missing.
\<close>

theorem followUp_missing_after_success:
  "isSaving typing4 \<and> pendingSave typing4 \<and> fetched typing4 = fetched (fst typing1) \<and>
   length (fetched (fst typing1)) = 1 \<and>
   pendingSave typing5 = False \<and> followUpTimers typing5 = [draftA] \<and>
   fetched (fst typing6) = fetched (fst typing1) \<and>
   form (fst typing6) = draftB \<and> lastSavedData (fst typing6) = draftA \<and>
   isDirty (form (fst typing6)) (fst typing6) \<and>
   followUpTimers (fst typing6) = [] \<and> autosaveTimer (fst typing6) = False \<and>
   pendingSave (fst typing6) = False \<and> saveState (fst typing6) = Saved 50"
  by code_simp

subsection \<open>Restoring a version in the editor\<close>

text \<open>
  The handler cancels the debounce timer, but the render that follows runs the effect
  of the field change, and \<open>handleChange\<close> arms the timer again when the restored
  fields differ from the form before and from the last-saved snapshot.
\<close>

lemma postData_eta:
  "\<lparr>d_title = d_title v, d_slug = d_slug v, d_excerpt = d_excerpt v,
     d_content = d_content v, d_status = d_status v\<rparr> = (v::postData)"
  by (cases v) simp

lemma restore_rearms_autosave:
  assumes "v \<noteq> form s" and "isDirty v s"
  shows "autosaveTimer (restoreInEditor v s) = True \<and> form (restoreInEditor v s) = v \<and>
         saveState (restoreInEditor v s) = Unsaved \<and>
         lastSavedData (restoreInEditor v s) = lastSavedData s \<and>
         fetched (restoreInEditor v s) = fetched s"
  using assms
  by (simp add: restoreInEditor_def handleVersionRestore_def fieldsEffect_def handleChange_def
        debouncedSave_def cancelDebouncedSave_def isDirty_def isPostDataEqual_def
        getCurrentData_def Let_def postData_eta)

text \<open>
  Claim C9, evaluated on the code. A version is restored in a clean editor; the user
  does nothing more. The restore leaves the debounce timer armed, and when it runs out
  the autosave sends the restored fields to the store, without any explicit save.
\<close>

theorem restore_is_autosaved:
  "form restored1 = draftA \<and> saveState restored1 = Unsaved \<and>
   lastSavedData restored1 = savedDraft \<and> fetched restored1 = [] \<and>
   autosaveTimer restored1 = True \<and>
   fetched (fst restored2) =
     [\<lparr>rq_postId = Some ''p1'', rq_token = ''tok'', rq_body = draftA,
       rq_createVersion = False, rq_versionNote = None\<rparr>]"
  by code_simp

end
